theory Spec2Isabelle
  imports Main
begin

section \<open>Constants and packets\<close>

text \<open>
  The two protocol files \<^verbatim>\<open>src/sr.c\<close> and \<^verbatim>\<open>src/unnamed/part_000\<close> define the
  same constants. C \<^verbatim>\<open>int\<close> values are modelled as \<^typ>\<open>int\<close>. The quantities the
  handlers compute from a window position stay far below the 32-bit limit. The checksum is
  the exception: it adds header fields that arrive from the channel and may lie anywhere
  in the range of a 32-bit \<^verbatim>\<open>int\<close>, so its additions are written with the wrap-around
  \<open>wrap32\<close>. The event counters of the emulator only ever count up by one and are kept
  without a bound. A \<^verbatim>\<open>char\<close> is modelled by the value the cast \<^verbatim>\<open>(int)c\<close> gives.
\<close>

definition WINDOWSIZE :: int where
  "WINDOWSIZE = 6"

definition SEQSPACE :: int where
  "SEQSPACE = 12"

definition NOTINUSE :: int where
  "NOTINUSE = - 1"

text \<open>
  The operator \<^verbatim>\<open>%\<close> of C truncates towards zero: the result takes the sign of
  the dividend.
\<close>

definition c_mod :: "int \<Rightarrow> int \<Rightarrow> int" where
  "c_mod a b = sgn a * (\<bar>a\<bar> mod \<bar>b\<bar>)"

text \<open>
  Modelled from the spec: \<^verbatim>\<open>struct msg\<close> and \<^verbatim>\<open>struct pkt\<close>, which are declared in
  \<^verbatim>\<open>emulator.h\<close>, a header that is not among the sources. A message is a fixed-length
  data unit and a packet has the fields \<^verbatim>\<open>seqnum\<close>, \<^verbatim>\<open>acknum\<close>, \<^verbatim>\<open>checksum\<close> and a
  fixed-length \<^verbatim>\<open>payload\<close>; the handlers copy and sum 20 characters.
\<close>

record msg =
  data :: "int list"

record pkt =
  seqnum :: int
  acknum :: int
  checksum :: int
  payload :: "int list"

text \<open>
  \<^verbatim>\<open>ComputeChecksum\<close> starts from \<^verbatim>\<open>packet.seqnum\<close>, adds \<^verbatim>\<open>packet.acknum\<close> and then the
  20 characters of the payload, one \<^verbatim>\<open>checksum += ...\<close> at a time, in a 32-bit signed
  \<^verbatim>\<open>int\<close>. An addition that leaves the range wraps around in two's complement, which is
  what the compiled program does; \<open>wrap32\<close> is that reduction to
  \<open>[-2\<^sup>3\<^sup>1, 2\<^sup>3\<^sup>1)\<close>.
\<close>

definition wrap32 :: "int \<Rightarrow> int" where
  "wrap32 x = (x + 2147483648) mod 4294967296 - 2147483648"

definition ComputeChecksum :: "pkt \<Rightarrow> int" where
  "ComputeChecksum packet =
     foldl (\<lambda>checksum c. wrap32 (checksum + c)) (wrap32 (seqnum packet + acknum packet))
       (take 20 (payload packet))"

definition IsCorrupted :: "pkt \<Rightarrow> bool" where
  "IsCorrupted packet = (if checksum packet = ComputeChecksum packet then False else True)"

text \<open>
  The calls into the emulator are recorded as a trace, in the order in which a handler makes
  them. \<open>ToLayer5 p\<close> stands for \<^verbatim>\<open>tolayer5(B, p.payload)\<close>: it keeps the buffered
  packet whose payload is handed over, so that the sequence numbers of delivered payloads
  can be read off the trace.
\<close>

datatype event = ToLayer3 pkt | ToLayer5 pkt | StartTimer | StopTimer

fun is_ToLayer3 :: "event \<Rightarrow> bool" where
  "is_ToLayer3 (ToLayer3 p) = True"
| "is_ToLayer3 e = False"

fun is_ToLayer5 :: "event \<Rightarrow> bool" where
  "is_ToLayer5 (ToLayer5 p) = True"
| "is_ToLayer5 e = False"

text \<open>
  A C array of size \<open>n\<close> is a list of length \<open>n\<close>. An access at an index outside the
  array is undefined behaviour in C; the handlers below return \<open>None\<close> there.
\<close>

definition in_range :: "'a list \<Rightarrow> int \<Rightarrow> bool" where
  "in_range xs i \<longleftrightarrow> 0 \<le> i \<and> i < int (length xs)"

text \<open>
  The window test, written out once per handler in the sources, always with the same
  shape: \<^verbatim>\<open>(base <= last && x >= base && x <= last) || (base > last && (x >= base || x <= last))\<close>
  with \<^verbatim>\<open>last = (base + WINDOWSIZE - 1) % SEQSPACE\<close>.
\<close>

definition in_window :: "int \<Rightarrow> int \<Rightarrow> bool" where
  "in_window base x \<longleftrightarrow>
     (base \<le> c_mod (base + WINDOWSIZE - 1) SEQSPACE \<and>
        (x \<ge> base \<and> x \<le> c_mod (base + WINDOWSIZE - 1) SEQSPACE)) \<or>
     (base > c_mod (base + WINDOWSIZE - 1) SEQSPACE \<and>
        (x \<ge> base \<or> x \<le> c_mod (base + WINDOWSIZE - 1) SEQSPACE))"

section \<open>Receiver (B)\<close>

record receiver =
  rcv_buffer :: "pkt list"
  rcv_acked :: "bool list"
  rcv_base :: int
  B_nextseqnum :: int
  packets_received :: int

text \<open>
  The delivery loop of \<^verbatim>\<open>B_input\<close> (sr.c lines 264-269, part_000 lines 242-250):
  \<^verbatim>\<open>while (rcv_acked[rcv_base % WINDOWSIZE]) { tolayer5(...); rcv_acked[...] = false;
  rcv_base = (rcv_base + 1) % SEQSPACE; }\<close>. It returns the flags, the base and the packets
  delivered, oldest first.
\<close>

function deliver_loop :: "pkt list \<Rightarrow> bool list \<Rightarrow> int \<Rightarrow> (bool list \<times> int \<times> pkt list) option" where
  "deliver_loop buf ak base =
     (if \<not> in_range ak (c_mod base WINDOWSIZE) then None
      else if ak ! nat (c_mod base WINDOWSIZE) then
        (if \<not> in_range buf (c_mod base WINDOWSIZE) then None
         else
           (case deliver_loop buf (ak[nat (c_mod base WINDOWSIZE) := False])
                   (c_mod (base + 1) SEQSPACE) of
              None \<Rightarrow> None
            | Some (ak', base', ds) \<Rightarrow> Some (ak', base', buf ! nat (c_mod base WINDOWSIZE) # ds)))
      else Some (ak, base, []))"
  by pat_completeness auto

lemma clear_flag_less:
  "i < length ak \<Longrightarrow> ak ! i \<Longrightarrow> length (filter id (ak[i := False])) < length (filter id ak)"
proof (induction ak arbitrary: i)
  case Nil
  then show ?case by simp
next
  case (Cons a ak)
  show ?case
  proof (cases i)
    case 0
    with Cons.prems show ?thesis by simp
  next
    case (Suc j)
    with Cons.prems Cons.IH [of j] show ?thesis by simp
  qed
qed

termination deliver_loop
proof (relation "measure (\<lambda>(buf, ak, base). length (filter id ak))")
  show "wf (measure (\<lambda>(buf, ak, base). length (filter id ak)))" by simp
next
  fix buf :: "pkt list" and ak :: "bool list" and base :: int
  assume "\<not> \<not> in_range ak (c_mod base WINDOWSIZE)" and "ak ! nat (c_mod base WINDOWSIZE)"
  then have "nat (c_mod base WINDOWSIZE) < length ak" and "ak ! nat (c_mod base WINDOWSIZE)"
    by (auto simp: in_range_def)
  then show "((buf, ak[nat (c_mod base WINDOWSIZE) := False], c_mod (base + 1) SEQSPACE), (buf, ak, base))
      \<in> measure (\<lambda>(buf, ak, base). length (filter id ak))"
    using clear_flag_less [of "nat (c_mod base WINDOWSIZE)" ak] by simp
qed

declare deliver_loop.simps [simp del]

text \<open>
  The body of \<^verbatim>\<open>B_input\<close> up to the point where the acknowledgment is built
  (sr.c lines 241-292, part_000 lines 222-273; the two files have the same statements there).
  The result is the receiver's state, the deliveries made and the value stored in
  \<^verbatim>\<open>sendpkt.acknum\<close>.
\<close>

definition B_receive :: "receiver \<Rightarrow> pkt \<Rightarrow> (receiver \<times> event list \<times> int) option" where
  "B_receive s packet =
     (if \<not> IsCorrupted packet then
        (if in_window (rcv_base s) (seqnum packet) then
           (let packet_index = c_mod (seqnum packet) WINDOWSIZE in
            if \<not> in_range (rcv_buffer s) packet_index \<or> \<not> in_range (rcv_acked s) packet_index
            then None
            else
              (let s1 = s\<lparr>packets_received := packets_received s + 1,
                            rcv_buffer := (rcv_buffer s)[nat packet_index := packet],
                            rcv_acked := (rcv_acked s)[nat packet_index := True]\<rparr>
               in if seqnum packet = rcv_base s then
                    (case deliver_loop (rcv_buffer s1) (rcv_acked s1) (rcv_base s1) of
                       None \<Rightarrow> None
                     | Some (ak, base, ds) \<Rightarrow>
                         Some (s1\<lparr>rcv_acked := ak, rcv_base := base\<rparr>, map ToLayer5 ds,
                               seqnum packet))
                  else Some (s1, [], seqnum packet)))
         else Some (s, [], seqnum packet))
      else Some (s, [], if rcv_base s = 0 then SEQSPACE - 1 else rcv_base s - 1))"

text \<open>
  \<^verbatim>\<open>B_input\<close> of part_000 (lines 215-289): after the receive step it builds one
  acknowledgment, fills the whole payload with the character \<^verbatim>\<open>'0'\<close> (48), computes the
  checksum and sends the packet once.
\<close>

definition B_input :: "receiver \<Rightarrow> pkt \<Rightarrow> (receiver \<times> event list) option" where
  "B_input s packet =
     (case B_receive s packet of
        None \<Rightarrow> None
      | Some (s1, evs, ack) \<Rightarrow>
          (let p = \<lparr>seqnum = B_nextseqnum s1, acknum = ack, checksum = 0,
                    payload = replicate 20 48\<rparr>;
               sendpkt = p\<lparr>checksum := ComputeChecksum p\<rparr>
           in Some (s1\<lparr>B_nextseqnum := c_mod (B_nextseqnum s1 + 1) 2\<rparr>,
                    evs @ [ToLayer3 sendpkt])))"

text \<open>
  \<^verbatim>\<open>B_input\<close> of sr.c (lines 235-308). The closing brace of the payload loop stands
  after the call of \<^verbatim>\<open>tolayer3\<close> (line 307), so the body of the loop is: store one
  character, compute the checksum, send. The local \<^verbatim>\<open>sendpkt\<close> is not initialised;
  \<open>junk\<close> stands for the 20 characters its payload holds at entry.
\<close>

fun fill_and_send :: "pkt \<Rightarrow> nat list \<Rightarrow> event list" where
  "fill_and_send sendpkt [] = []"
| "fill_and_send sendpkt (i # rest) =
     ToLayer3 (sendpkt\<lparr>payload := (payload sendpkt)[i := 48],
                        checksum := ComputeChecksum (sendpkt\<lparr>payload := (payload sendpkt)[i := 48]\<rparr>)\<rparr>)
       # fill_and_send
           (sendpkt\<lparr>payload := (payload sendpkt)[i := 48],
                     checksum := ComputeChecksum (sendpkt\<lparr>payload := (payload sendpkt)[i := 48]\<rparr>)\<rparr>)
           rest"

definition B_input_sr :: "receiver \<Rightarrow> int list \<Rightarrow> pkt \<Rightarrow> (receiver \<times> event list) option" where
  "B_input_sr s junk packet =
     (case B_receive s packet of
        None \<Rightarrow> None
      | Some (s1, evs, ack) \<Rightarrow>
          Some (s1\<lparr>B_nextseqnum := c_mod (B_nextseqnum s1 + 1) 2\<rparr>,
                evs @ fill_and_send
                        \<lparr>seqnum = B_nextseqnum s1, acknum = ack, checksum = 0, payload = junk\<rparr>
                        [0..<20]))"

text \<open>
  \<^verbatim>\<open>B_init\<close>. Static storage starts zeroed, so the buffer holds packets of zeros;
  the counter \<^verbatim>\<open>packets_received\<close> belongs to the emulator and starts at zero.
  part_000 starts the acknowledgment numbering at 1, sr.c at 0.
\<close>

definition zero_pkt :: pkt where
  "zero_pkt = \<lparr>seqnum = 0, acknum = 0, checksum = 0, payload = replicate 20 0\<rparr>"

definition B_init :: receiver where
  "B_init = \<lparr>rcv_buffer = replicate 6 zero_pkt, rcv_acked = replicate 6 False, rcv_base = 0,
             B_nextseqnum = 1, packets_received = 0\<rparr>"

definition B_init_sr :: receiver where
  "B_init_sr = \<lparr>rcv_buffer = replicate 6 zero_pkt, rcv_acked = replicate 6 False, rcv_base = 0,
                B_nextseqnum = 0, packets_received = 0\<rparr>"

section \<open>Sender (A)\<close>

text \<open>
  Both files declare \<^verbatim>\<open>buffer\<close>, \<^verbatim>\<open>acked\<close>, \<^verbatim>\<open>send_base\<close>, \<^verbatim>\<open>A_nextseqnum\<close> and
  \<^verbatim>\<open>windowcount\<close>, and both update the emulator's counters. part_000 adds the flag
  \<^verbatim>\<open>timer_running\<close>, sr.c the array \<^verbatim>\<open>timer_ids\<close>.
\<close>

record sender_vars =
  buffer :: "pkt list"
  acked :: "bool list"
  send_base :: int
  A_nextseqnum :: int
  windowcount :: int
  window_full :: int
  total_ACKs_received :: int
  new_ACKs :: int
  packets_resent :: int

record sender = sender_vars +
  timer_running :: bool

record sender_sr = sender_vars +
  timer_ids :: "int list"

text \<open>
  The loop that moves the window in \<^verbatim>\<open>A_input\<close> (sr.c lines 149-157, part_000 lines
  136-144): \<^verbatim>\<open>while (acked[send_base % WINDOWSIZE]) { acked[...] = false;
  send_base = (send_base + 1) % SEQSPACE; windowcount--; if (windowcount == 0) break; }\<close>.
\<close>

function slide_loop :: "bool list \<Rightarrow> int \<Rightarrow> int \<Rightarrow> (bool list \<times> int \<times> int) option" where
  "slide_loop ak base cnt =
     (if \<not> in_range ak (c_mod base WINDOWSIZE) then None
      else if ak ! nat (c_mod base WINDOWSIZE) then
        (if cnt - 1 = 0
         then Some (ak[nat (c_mod base WINDOWSIZE) := False], c_mod (base + 1) SEQSPACE, cnt - 1)
         else slide_loop (ak[nat (c_mod base WINDOWSIZE) := False]) (c_mod (base + 1) SEQSPACE)
                (cnt - 1))
      else Some (ak, base, cnt))"
  by pat_completeness auto

termination slide_loop
proof (relation "measure (\<lambda>(ak, base, cnt). length (filter id ak))")
  show "wf (measure (\<lambda>(ak, base, cnt). length (filter id ak)))" by simp
next
  fix ak :: "bool list" and base cnt :: int
  assume "\<not> \<not> in_range ak (c_mod base WINDOWSIZE)" and "ak ! nat (c_mod base WINDOWSIZE)"
  then have "nat (c_mod base WINDOWSIZE) < length ak" and "ak ! nat (c_mod base WINDOWSIZE)"
    by (auto simp: in_range_def)
  then show "((ak[nat (c_mod base WINDOWSIZE) := False], c_mod (base + 1) SEQSPACE, cnt - 1),
       (ak, base, cnt)) \<in> measure (\<lambda>(ak, base, cnt). length (filter id ak))"
    using clear_flag_less [of "nat (c_mod base WINDOWSIZE)" ak] by simp
qed

declare slide_loop.simps [simp del]

subsection \<open>The sender of part_000\<close>

definition A_output :: "sender \<Rightarrow> msg \<Rightarrow> (sender \<times> event list) option" where
  "A_output s message =
     (if windowcount s < WINDOWSIZE then
        (let p = \<lparr>seqnum = A_nextseqnum s, acknum = NOTINUSE, checksum = 0,
                  payload = take 20 (data message)\<rparr>;
             sendpkt = p\<lparr>checksum := ComputeChecksum p\<rparr>;
             buf_index = c_mod (A_nextseqnum s) WINDOWSIZE
         in if \<not> in_range (buffer s) buf_index \<or> \<not> in_range (acked s) buf_index then None
            else
              (let s1 = s\<lparr>buffer := (buffer s)[nat buf_index := sendpkt],
                            acked := (acked s)[nat buf_index := False]\<rparr>
               in if windowcount s = 0 \<and> \<not> timer_running s
                  then Some (s1\<lparr>timer_running := True, windowcount := windowcount s + 1,
                                 A_nextseqnum := c_mod (A_nextseqnum s + 1) SEQSPACE\<rparr>,
                             [ToLayer3 sendpkt, StartTimer])
                  else Some (s1\<lparr>windowcount := windowcount s + 1,
                                 A_nextseqnum := c_mod (A_nextseqnum s + 1) SEQSPACE\<rparr>,
                             [ToLayer3 sendpkt])))
      else Some (s\<lparr>window_full := window_full s + 1\<rparr>, []))"

definition A_input :: "sender \<Rightarrow> pkt \<Rightarrow> (sender \<times> event list) option" where
  "A_input s packet =
     (if \<not> IsCorrupted packet then
        (let s1 = s\<lparr>total_ACKs_received := total_ACKs_received s + 1\<rparr> in
         if in_window (send_base s) (acknum packet) then
           (let index = c_mod (acknum packet) WINDOWSIZE in
            if \<not> in_range (acked s) index then None
            else if acked s ! nat index then Some (s1, [])
            else
              (let s2 = s1\<lparr>new_ACKs := new_ACKs s + 1,
                             acked := (acked s)[nat index := True]\<rparr>
               in if acknum packet = send_base s then
                    (case slide_loop (acked s2) (send_base s2) (windowcount s2) of
                       None \<Rightarrow> None
                     | Some (ak, base, cnt) \<Rightarrow>
                         (if cnt > 0
                          then Some (s2\<lparr>acked := ak, send_base := base, windowcount := cnt,
                                         timer_running := True\<rparr>, [StopTimer, StartTimer])
                          else Some (s2\<lparr>acked := ak, send_base := base, windowcount := cnt,
                                         timer_running := False\<rparr>, [StopTimer])))
                  else Some (s2, [])))
         else Some (s1, []))
      else Some (s, []))"

definition A_timerinterrupt :: "sender \<Rightarrow> (sender \<times> event list) option" where
  "A_timerinterrupt s =
     (let index = c_mod (send_base s) WINDOWSIZE in
      if \<not> in_range (acked s) index then None
      else if \<not> acked s ! nat index then
        (if \<not> in_range (buffer s) index then None
         else Some (s\<lparr>packets_resent := packets_resent s + 1, timer_running := True\<rparr>,
                    [ToLayer3 (buffer s ! nat index), StartTimer]))
      else Some (s, []))"

text \<open>
  \<^verbatim>\<open>A_init\<close>: the variables it assigns, over zeroed static storage and emulator
  counters at zero.
\<close>

definition A_init :: sender where
  "A_init = \<lparr>buffer = replicate 6 zero_pkt, acked = replicate 6 True, send_base = 0,
             A_nextseqnum = 0, windowcount = 0, window_full = 0, total_ACKs_received = 0,
             new_ACKs = 0, packets_resent = 0, timer_running = False\<rparr>"

subsection \<open>The sender of sr.c\<close>

definition A_output_sr :: "sender_sr \<Rightarrow> msg \<Rightarrow> (sender_sr \<times> event list) option" where
  "A_output_sr s message =
     (if windowcount s < WINDOWSIZE then
        (let p = \<lparr>seqnum = A_nextseqnum s, acknum = NOTINUSE, checksum = 0,
                  payload = take 20 (data message)\<rparr>;
             sendpkt = p\<lparr>checksum := ComputeChecksum p\<rparr>;
             buf_index = c_mod (A_nextseqnum s) WINDOWSIZE
         in if \<not> in_range (buffer s) buf_index \<or> \<not> in_range (acked s) buf_index
               \<or> \<not> in_range (timer_ids s) buf_index then None
            else Some (s\<lparr>buffer := (buffer s)[nat buf_index := sendpkt],
                          acked := (acked s)[nat buf_index := False],
                          timer_ids := (timer_ids s)[nat buf_index := seqnum sendpkt],
                          windowcount := windowcount s + 1,
                          A_nextseqnum := c_mod (A_nextseqnum s + 1) SEQSPACE\<rparr>,
                       [ToLayer3 sendpkt, StartTimer]))
      else Some (s\<lparr>window_full := window_full s + 1\<rparr>, []))"

text \<open>
  The loop that restarts the timer in \<^verbatim>\<open>A_input\<close> of sr.c (lines 162-171). The body
  assigns to the loop variable: \<^verbatim>\<open>seqnum = (send_base + i) % WINDOWSIZE; ...
  i = seqnum % WINDOWSIZE;\<close>, and \<^verbatim>\<open>i++\<close> follows. The loop need not end for every
  value of the variables, so \<open>None\<close> also stands for a loop that does not return.
\<close>

partial_function (option) restart_loop :: "bool list \<Rightarrow> int \<Rightarrow> int \<Rightarrow> int \<Rightarrow> int \<Rightarrow> event list option" where
  "restart_loop ak base nextseq cnt i =
     (if i < cnt then
        (if c_mod (base + i) WINDOWSIZE = nextseq then Some []
         else if \<not> in_range ak (c_mod (c_mod (base + i) WINDOWSIZE) WINDOWSIZE) then None
         else if \<not> ak ! nat (c_mod (c_mod (base + i) WINDOWSIZE) WINDOWSIZE) then Some [StartTimer]
         else restart_loop ak base nextseq cnt (c_mod (c_mod (base + i) WINDOWSIZE) WINDOWSIZE + 1))
      else Some [])"

declare restart_loop.simps [code]

definition A_input_sr :: "sender_sr \<Rightarrow> pkt \<Rightarrow> (sender_sr \<times> event list) option" where
  "A_input_sr s packet =
     (if \<not> IsCorrupted packet then
        (let s1 = s\<lparr>total_ACKs_received := total_ACKs_received s + 1\<rparr> in
         if in_window (send_base s) (acknum packet) then
           (let i = c_mod (acknum packet) WINDOWSIZE in
            if \<not> in_range (acked s) i then None
            else if acked s ! nat i then Some (s1, [])
            else
              (let s2 = s1\<lparr>new_ACKs := new_ACKs s + 1, acked := (acked s)[nat i := True]\<rparr>
               in case (if acknum packet = send_base s
                        then slide_loop (acked s2) (send_base s2) (windowcount s2)
                        else Some (acked s2, send_base s2, windowcount s2)) of
                    None \<Rightarrow> None
                  | Some (ak, base, cnt) \<Rightarrow>
                      (case (if cnt > 0 then restart_loop ak base (A_nextseqnum s2) cnt 0
                             else Some []) of
                         None \<Rightarrow> None
                       | Some evs \<Rightarrow>
                           Some (s2\<lparr>acked := ak, send_base := base, windowcount := cnt\<rparr>,
                                 StopTimer # evs))))
         else Some (s1, []))
      else Some (s, []))"

text \<open>
  The loop of \<^verbatim>\<open>A_timerinterrupt\<close> of sr.c (lines 194-205). Its first statement
  overwrites the loop variable with a buffer index,
  \<^verbatim>\<open>i = (send_base + i) % SEQSPACE % WINDOWSIZE;\<close>, and the test that follows adds
  \<^verbatim>\<open>send_base\<close> to that index.
\<close>

partial_function (option) resend_loop :: "sender_sr \<Rightarrow> int \<Rightarrow> (sender_sr \<times> event list) option" where
  "resend_loop s i =
     (if i < windowcount s then
        (if \<not> in_range (acked s) (c_mod (c_mod (send_base s + i) SEQSPACE) WINDOWSIZE) then None
         else if \<not> acked s ! nat (c_mod (c_mod (send_base s + i) SEQSPACE) WINDOWSIZE)
                 \<and> c_mod (send_base s + c_mod (c_mod (send_base s + i) SEQSPACE) WINDOWSIZE) SEQSPACE
                    \<noteq> A_nextseqnum s
         then (if \<not> in_range (buffer s) (c_mod (c_mod (send_base s + i) SEQSPACE) WINDOWSIZE)
               then None
               else Some (s\<lparr>packets_resent := packets_resent s + 1\<rparr>,
                          [ToLayer3 (buffer s ! nat (c_mod (c_mod (send_base s + i) SEQSPACE) WINDOWSIZE)),
                           StartTimer]))
         else resend_loop s (c_mod (c_mod (send_base s + i) SEQSPACE) WINDOWSIZE + 1))
      else Some (s, []))"

declare resend_loop.simps [code]

definition A_timerinterrupt_sr :: "sender_sr \<Rightarrow> (sender_sr \<times> event list) option" where
  "A_timerinterrupt_sr s = resend_loop s 0"

definition A_init_sr :: sender_sr where
  "A_init_sr = \<lparr>buffer = replicate 6 zero_pkt, acked = replicate 6 True, send_base = 0,
                A_nextseqnum = 0, windowcount = 0, window_full = 0, total_ACKs_received = 0,
                new_ACKs = 0, packets_resent = 0, timer_ids = replicate 6 NOTINUSE\<rparr>"

section \<open>Runs\<close>

text \<open>
  The emulator calls one handler at a time. A run of an entity applies a list of calls in
  order and stops with \<open>None\<close> as soon as one call has no defined result.
\<close>

datatype call = Output msg | Input pkt | Timeout

fun A_step :: "sender \<Rightarrow> call \<Rightarrow> (sender \<times> event list) option" where
  "A_step s (Output message) = A_output s message"
| "A_step s (Input packet) = A_input s packet"
| "A_step s Timeout = A_timerinterrupt s"

fun A_run :: "sender \<Rightarrow> call list \<Rightarrow> sender option" where
  "A_run s [] = Some s"
| "A_run s (c # cs) = (case A_step s c of None \<Rightarrow> None | Some (s', evs) \<Rightarrow> A_run s' cs)"

fun A_step_sr :: "sender_sr \<Rightarrow> call \<Rightarrow> (sender_sr \<times> event list) option" where
  "A_step_sr s (Output message) = A_output_sr s message"
| "A_step_sr s (Input packet) = A_input_sr s packet"
| "A_step_sr s Timeout = A_timerinterrupt_sr s"

fun A_run_sr :: "sender_sr \<Rightarrow> call list \<Rightarrow> sender_sr option" where
  "A_run_sr s [] = Some s"
| "A_run_sr s (c # cs) = (case A_step_sr s c of None \<Rightarrow> None | Some (s', evs) \<Rightarrow> A_run_sr s' cs)"

text \<open>A run of the receiver keeps the trace of all its calls.\<close>

fun B_run :: "receiver \<Rightarrow> pkt list \<Rightarrow> (receiver \<times> event list) option" where
  "B_run s [] = Some (s, [])"
| "B_run s (p # ps) =
     (case B_input s p of
        None \<Rightarrow> None
      | Some (s1, evs) \<Rightarrow>
          (case B_run s1 ps of None \<Rightarrow> None | Some (s2, evs') \<Rightarrow> Some (s2, evs @ evs')))"

fun B_run_sr :: "receiver \<Rightarrow> (int list \<times> pkt) list \<Rightarrow> (receiver \<times> event list) option" where
  "B_run_sr s [] = Some (s, [])"
| "B_run_sr s (jp # ps) =
     (case B_input_sr s (fst jp) (snd jp) of
        None \<Rightarrow> None
      | Some (s1, evs) \<Rightarrow>
          (case B_run_sr s1 ps of None \<Rightarrow> None | Some (s2, evs') \<Rightarrow> Some (s2, evs @ evs')))"

text \<open>Packets and messages used in the examples below.\<close>

definition mk_pkt :: "int \<Rightarrow> int \<Rightarrow> int list \<Rightarrow> pkt" where
  "mk_pkt sq ak pl =
     \<lparr>seqnum = sq, acknum = ak, checksum = 0, payload = pl\<rparr>
       \<lparr>checksum := ComputeChecksum \<lparr>seqnum = sq, acknum = ak, checksum = 0, payload = pl\<rparr>\<rparr>"

definition data_pkt :: "int \<Rightarrow> pkt" where
  "data_pkt sq = mk_pkt sq NOTINUSE (replicate 20 97)"

definition ack_pkt :: "int \<Rightarrow> pkt" where
  "ack_pkt ak = mk_pkt 0 ak (replicate 20 48)"

definition bad_pkt :: pkt where
  "bad_pkt = \<lparr>seqnum = 999999, acknum = 3, checksum = 963, payload = replicate 20 48\<rparr>"

definition msg_a :: msg where
  "msg_a = \<lparr>data = replicate 20 97\<rparr>"

text \<open>The two senders after six messages were accepted from the initial state.\<close>

definition sender_full :: sender where
  "sender_full = \<lparr>buffer = map data_pkt [0, 1, 2, 3, 4, 5], acked = replicate 6 False,
     send_base = 0, A_nextseqnum = 6, windowcount = 6, window_full = 0,
     total_ACKs_received = 0, new_ACKs = 0, packets_resent = 0, timer_running = True\<rparr>"

definition sender_full_sr :: sender_sr where
  "sender_full_sr = \<lparr>buffer = map data_pkt [0, 1, 2, 3, 4, 5], acked = replicate 6 False,
     send_base = 0, A_nextseqnum = 6, windowcount = 6, window_full = 0,
     total_ACKs_received = 0, new_ACKs = 0, packets_resent = 0,
     timer_ids = [0, 1, 2, 3, 4, 5]\<rparr>"

text \<open>
  The array index of a sequence number: \<^verbatim>\<open>seqnum % WINDOWSIZE\<close> for a number that is
  not negative.
\<close>

definition slot :: "int \<Rightarrow> nat" where
  "slot q = nat (q mod WINDOWSIZE)"

text \<open>
  The shape of a receiver state that the handlers keep: arrays of \<open>WINDOWSIZE\<close> entries
  and a base inside the sequence space.
\<close>

definition wf_receiver :: "receiver \<Rightarrow> bool" where
  "wf_receiver s \<longleftrightarrow> length (rcv_buffer s) = 6 \<and> length (rcv_acked s) = 6 \<and>
     0 \<le> rcv_base s \<and> rcv_base s < SEQSPACE"

text \<open>The packets whose payload a trace hands to layer 5, in order.\<close>

fun delivered :: "event list \<Rightarrow> pkt list" where
  "delivered [] = []"
| "delivered (ToLayer5 p # evs) = p # delivered evs"
| "delivered (e # evs) = delivered evs"

text \<open>
  The invariant of the receiver: a slot that is flagged as received holds a packet whose
  sequence number lies in the sequence space, belongs to that slot and lies inside the
  current window.
\<close>

definition slots_ok :: "pkt list \<Rightarrow> bool list \<Rightarrow> int \<Rightarrow> bool" where
  "slots_ok buf ak base \<longleftrightarrow>
     (\<forall>i<6. ak ! i \<longrightarrow>
        0 \<le> seqnum (buf ! i) \<and> seqnum (buf ! i) < SEQSPACE \<and> slot (seqnum (buf ! i)) = i \<and>
        (seqnum (buf ! i) - base) mod SEQSPACE < WINDOWSIZE)"

definition rcv_inv :: "receiver \<Rightarrow> bool" where
  "rcv_inv s \<longleftrightarrow> wf_receiver s \<and> slots_ok (rcv_buffer s) (rcv_acked s) (rcv_base s)"

text \<open>
  What one call does to the window variables of a sender, for both files: a call leaves
  them alone (\<open>same_window\<close>), or it is an accepted message (\<open>output_effect\<close>), or
  it is a new acknowledgment that flags a slot and, when it is for the base, moves the
  window by the loop (\<open>input_effect\<close>).
\<close>

definition same_window :: "'a sender_vars_scheme \<Rightarrow> 'b sender_vars_scheme \<Rightarrow> bool" where
  "same_window s s' \<longleftrightarrow>
     length (buffer s') = length (buffer s) \<and> acked s' = acked s \<and> send_base s' = send_base s \<and>
     A_nextseqnum s' = A_nextseqnum s \<and> windowcount s' = windowcount s"

definition output_effect :: "'a sender_vars_scheme \<Rightarrow> 'b sender_vars_scheme \<Rightarrow> bool" where
  "output_effect s s' \<longleftrightarrow>
     (if windowcount s < WINDOWSIZE
      then in_range (acked s) (c_mod (A_nextseqnum s) WINDOWSIZE) \<and>
           length (buffer s') = length (buffer s) \<and>
           acked s' = (acked s)[nat (c_mod (A_nextseqnum s) WINDOWSIZE) := False] \<and>
           send_base s' = send_base s \<and>
           A_nextseqnum s' = c_mod (A_nextseqnum s + 1) SEQSPACE \<and>
           windowcount s' = windowcount s + 1
      else same_window s s')"

definition input_effect :: "'a sender_vars_scheme \<Rightarrow> pkt \<Rightarrow> 'b sender_vars_scheme \<Rightarrow> bool" where
  "input_effect s p s' \<longleftrightarrow>
     length (buffer s') = length (buffer s) \<and> A_nextseqnum s' = A_nextseqnum s \<and>
     (if \<not> IsCorrupted p \<and> in_window (send_base s) (acknum p) \<and>
         \<not> acked s ! nat (c_mod (acknum p) WINDOWSIZE)
      then in_range (acked s) (c_mod (acknum p) WINDOWSIZE) \<and>
           (if acknum p = send_base s
            then slide_loop ((acked s)[nat (c_mod (acknum p) WINDOWSIZE) := True]) (send_base s)
                   (windowcount s) = Some (acked s', send_base s', windowcount s')
            else acked s' = (acked s)[nat (c_mod (acknum p) WINDOWSIZE) := True] \<and>
                 send_base s' = send_base s \<and> windowcount s' = windowcount s)
      else acked s' = acked s \<and> send_base s' = send_base s \<and> windowcount s' = windowcount s)"

fun step_effect :: "'a sender_vars_scheme \<Rightarrow> call \<Rightarrow> 'b sender_vars_scheme \<Rightarrow> bool" where
  "step_effect s (Output message) s' = output_effect s s'"
| "step_effect s (Input packet) s' = input_effect s packet s'"
| "step_effect s Timeout s' = same_window s s'"

text \<open>The bound that C9 states for the count of outstanding packets.\<close>

definition window_bound :: "'a sender_vars_scheme \<Rightarrow> bool" where
  "window_bound s \<longleftrightarrow> 0 \<le> windowcount s \<and> windowcount s \<le> WINDOWSIZE"

text \<open>
  The shape of a sender state that every call keeps: arrays of \<open>WINDOWSIZE\<close> entries, a
  base inside the sequence space and at most \<open>WINDOWSIZE\<close> packets outstanding.
\<close>

definition sender_shape :: "'a sender_vars_scheme \<Rightarrow> bool" where
  "sender_shape s \<longleftrightarrow>
     length (buffer s) = 6 \<and> length (acked s) = 6 \<and> 0 \<le> send_base s \<and> send_base s < SEQSPACE \<and>
     windowcount s \<le> WINDOWSIZE"

text \<open>
  The invariant behind C10: the next sequence number is the base plus the count, and while
  packets are outstanding the slot of the base is not flagged as acknowledged.
\<close>

definition base_unacked :: "'a sender_vars_scheme \<Rightarrow> bool" where
  "base_unacked s \<longleftrightarrow>
     sender_shape s \<and> A_nextseqnum s = (send_base s + windowcount s) mod SEQSPACE \<and>
     (0 < windowcount s \<longrightarrow> \<not> acked s ! slot (send_base s))"

text \<open>
  Calls whose packets fit the data model of the spec: an acknowledgment that passes the
  checksum carries an \<open>acknum\<close> in \<open>[0, SEQSPACE)\<close>.
\<close>

fun call_ok :: "call \<Rightarrow> bool" where
  "call_ok (Input p) = (IsCorrupted p \<or> (0 \<le> acknum p \<and> acknum p < SEQSPACE))"
| "call_ok c = True"

text \<open>
  An acknowledgment is expected in a state unless it passes the checksum and names the base
  while no packet is outstanding. An acknowledgment that names one of the \<open>windowcount\<close>
  packets outstanding from the base on is expected in particular. A list of calls is
  expected when this holds for each call in the state in which it is made.
\<close>

fun call_expected :: "'a sender_vars_scheme \<Rightarrow> call \<Rightarrow> bool" where
  "call_expected s (Input p) =
     (IsCorrupted p \<or> acknum p \<noteq> send_base s \<or> 0 < windowcount s)"
| "call_expected s c = True"

fun acks_expected :: "sender \<Rightarrow> call list \<Rightarrow> bool" where
  "acks_expected s [] = True"
| "acks_expected s (c # cs) =
     (call_expected s c \<and>
      (case A_step s c of None \<Rightarrow> True | Some (s', evs) \<Rightarrow> acks_expected s' cs))"

fun acks_expected_sr :: "sender_sr \<Rightarrow> call list \<Rightarrow> bool" where
  "acks_expected_sr s [] = True"
| "acks_expected_sr s (c # cs) =
     (call_expected s c \<and>
      (case A_step_sr s c of None \<Rightarrow> True | Some (s', evs) \<Rightarrow> acks_expected_sr s' cs))"

text \<open>
  What the spec says of the timeout: the packet to retransmit is the first outstanding one,
  counted from the base, whose slot is not flagged.
\<close>

definition oldest_unacked :: "'a sender_vars_scheme \<Rightarrow> nat option" where
  "oldest_unacked s =
     find (\<lambda>k. \<not> acked s ! slot (send_base s + int k)) [0..<nat (windowcount s)]"

text \<open>
  Calls used in the examples. In \<open>calls_example\<close> packet 1 is acknowledged before packet
  0, a corrupted packet arrives and a timeout fires. In \<open>calls_spurious\<close> six messages are
  sent and acknowledged one by one, and then an acknowledgment for number 6 arrives, a
  packet that was never sent. In \<open>calls_second\<close> three messages are sent and acknowledged
  and three more are sent.
\<close>

definition calls_example :: "call list" where
  "calls_example =
     [Output msg_a, Output msg_a, Output msg_a, Input (ack_pkt 1), Input bad_pkt, Timeout,
      Input (ack_pkt 0), Input (ack_pkt 0), Output msg_a]"

definition calls_spurious :: "call list" where
  "calls_spurious =
     [Output msg_a, Input (ack_pkt 0), Output msg_a, Input (ack_pkt 1),
      Output msg_a, Input (ack_pkt 2), Output msg_a, Input (ack_pkt 3),
      Output msg_a, Input (ack_pkt 4), Output msg_a, Input (ack_pkt 5), Input (ack_pkt 6)]"

definition calls_second :: "call list" where
  "calls_second =
     [Output msg_a, Output msg_a, Output msg_a, Input (ack_pkt 0), Input (ack_pkt 1),
      Input (ack_pkt 2), Output msg_a, Output msg_a, Output msg_a]"

definition sender_example :: sender where
  "sender_example = \<lparr>buffer = map data_pkt [0, 1, 2, 3] @ replicate 2 zero_pkt,
     acked = [False, False, False, False, True, True], send_base = 2, A_nextseqnum = 4,
     windowcount = 2, window_full = 0, total_ACKs_received = 3, new_ACKs = 2,
     packets_resent = 1, timer_running = True\<rparr>"

definition sender_example_sr :: sender_sr where
  "sender_example_sr = \<lparr>buffer = map data_pkt [0, 1, 2, 3] @ replicate 2 zero_pkt,
     acked = [False, False, False, False, True, True], send_base = 2, A_nextseqnum = 4,
     windowcount = 2, window_full = 0, total_ACKs_received = 3, new_ACKs = 2,
     packets_resent = 1, timer_ids = [0, 1, 2, 3, - 1, - 1]\<rparr>"

definition sender_second :: sender where
  "sender_second = \<lparr>buffer = map data_pkt [0, 1, 2, 3, 4, 5], acked = replicate 6 False,
     send_base = 3, A_nextseqnum = 6, windowcount = 3, window_full = 0,
     total_ACKs_received = 3, new_ACKs = 3, packets_resent = 0, timer_running = True\<rparr>"

definition sender_second_sr :: sender_sr where
  "sender_second_sr = \<lparr>buffer = map data_pkt [0, 1, 2, 3, 4, 5], acked = replicate 6 False,
     send_base = 3, A_nextseqnum = 6, windowcount = 3, window_full = 0,
     total_ACKs_received = 3, new_ACKs = 3, packets_resent = 0,
     timer_ids = [0, 1, 2, 3, 4, 5]\<rparr>"

definition receiver_example :: receiver where
  "receiver_example = \<lparr>rcv_buffer = map data_pkt [0, 1, 2] @ replicate 3 zero_pkt,
     rcv_acked = replicate 6 False, rcv_base = 3, B_nextseqnum = 1, packets_received = 3\<rparr>"

definition receiver_example_sr :: receiver where
  "receiver_example_sr = receiver_example\<lparr>B_nextseqnum := 0\<rparr>"

text \<open>
  Packets arriving at the receiver: 0, then 2 ahead of 1, a corrupted packet, and copies of
  0 and 2 that arrive after their delivery.
\<close>

definition arrivals :: "pkt list" where
  "arrivals = [data_pkt 0, data_pkt 2, data_pkt 1, bad_pkt, data_pkt 0, data_pkt 2]"

text \<open>
  What the spec says of \<^verbatim>\<open>A_input\<close> when the acknowledged number is the base: the
  window moves by \<open>n\<close> slots. Each slot passed after the first was flagged as
  acknowledged before the call and the count did not reach zero before the last step; the
  flags of the slots passed are cleared and no other flag changes; the count is decremented
  once per slot; and the move ends with a count of zero or at a slot that is not flagged.
\<close>

definition window_slid :: "'a sender_vars_scheme \<Rightarrow> 'b sender_vars_scheme \<Rightarrow> nat \<Rightarrow> bool" where
  "window_slid s s' n \<longleftrightarrow>
     1 \<le> n \<and> n \<le> 6 \<and>
     send_base s' = (send_base s + int n) mod SEQSPACE \<and>
     windowcount s' = windowcount s - int n \<and>
     length (acked s') = 6 \<and>
     (\<forall>k. 0 < k \<and> k < n \<longrightarrow>
        acked s ! slot (send_base s + int k) \<and> windowcount s - int k \<noteq> 0) \<and>
     (\<forall>i<6. acked s' ! i = (acked s ! i \<and> (\<forall>k<n. i \<noteq> slot (send_base s + int k)))) \<and>
     (windowcount s' = 0 \<or> \<not> acked s' ! slot (send_base s + int n))"

text \<open>The results of the loop of sr.c that restarts the timer.\<close>

definition timer_restart :: "event list option \<Rightarrow> bool" where
  "timer_restart r \<longleftrightarrow> r = Some [] \<or> r = Some [StartTimer]"

text \<open>The sender after six messages and the acknowledgments of packets 1 and 2.\<close>

definition sender_gap :: sender where
  "sender_gap = sender_full\<lparr>acked := [False, True, True, False, False, False],
     total_ACKs_received := 2, new_ACKs := 2\<rparr>"

definition sender_gap_sr :: sender_sr where
  "sender_gap_sr = sender_full_sr\<lparr>acked := [False, True, True, False, False, False],
     total_ACKs_received := 2, new_ACKs := 2\<rparr>"

section \<open>Basic facts\<close>

lemma c_mod_nonneg [simp]: "0 \<le> a \<Longrightarrow> 0 < b \<Longrightarrow> c_mod a b = a mod b"
  by (cases "a = 0") (simp_all add: c_mod_def)

text \<open>
  Wrapping after every addition gives the wrapped total, and a total inside the 32-bit
  range is left as it is. A packet whose header is near the upper end of the range passes
  the checksum with the wrapped sum in its checksum field.
\<close>

lemma wrap32_add_left: "wrap32 (wrap32 a + c) = wrap32 (a + c)"
proof -
  have "(wrap32 a + c + 2147483648) mod 4294967296 = (a + c + 2147483648) mod 4294967296"
    unfolding wrap32_def by (simp add: algebra_simps mod_simps)
  then show ?thesis by (simp add: wrap32_def)
qed

lemma foldl_wrap32:
  "foldl (\<lambda>checksum c. wrap32 (checksum + c)) (wrap32 a) xs = wrap32 (a + sum_list xs)"
proof (induction xs arbitrary: a)
  case Nil
  show ?case by simp
next
  case (Cons x xs)
  have "foldl (\<lambda>checksum c. wrap32 (checksum + c)) (wrap32 a) (x # xs) =
      foldl (\<lambda>checksum c. wrap32 (checksum + c)) (wrap32 (a + x)) xs"
    by (simp add: wrap32_add_left)
  also have "\<dots> = wrap32 (a + x + sum_list xs)" by (rule Cons.IH)
  finally show ?case by (simp add: add.assoc)
qed

lemma ComputeChecksum_total:
  "ComputeChecksum packet =
     wrap32 (seqnum packet + acknum packet + sum_list (take 20 (payload packet)))"
  by (simp add: ComputeChecksum_def foldl_wrap32)

lemma wrap32_id: "- 2147483648 \<le> x \<Longrightarrow> x < 2147483648 \<Longrightarrow> wrap32 x = x"
  by (simp add: wrap32_def)

lemma IsCorrupted_wrapped:
  "\<not> IsCorrupted \<lparr>seqnum = 2147483647, acknum = 0, checksum = - 2147482689,
      payload = replicate 20 48\<rparr>"
  "IsCorrupted \<lparr>seqnum = 2147483647, acknum = 0, checksum = 2147484607,
      payload = replicate 20 48\<rparr>"
  by (simp_all add: IsCorrupted_def ComputeChecksum_total wrap32_def sum_list_replicate)

lemma IsCorrupted_mk_pkt [simp]: "\<not> IsCorrupted (mk_pkt sq ak pl)"
  by (simp add: IsCorrupted_def mk_pkt_def ComputeChecksum_def)

lemma ack_pkt_simps [simp]:
  "\<not> IsCorrupted (ack_pkt k)" "acknum (ack_pkt k) = k" "seqnum (ack_pkt k) = 0"
  by (simp_all add: ack_pkt_def) (simp_all add: mk_pkt_def)

lemma data_pkt_simps [simp]:
  "\<not> IsCorrupted (data_pkt k)" "seqnum (data_pkt k) = k" "acknum (data_pkt k) = NOTINUSE"
  by (simp_all add: data_pkt_def) (simp_all add: mk_pkt_def)

lemma IsCorrupted_bad_pkt [simp]: "IsCorrupted bad_pkt"
  by code_simp

lemma sender_full_reached: "A_run A_init (replicate 6 (Output msg_a)) = Some sender_full"
  by code_simp

lemma sender_full_sr_reached: "A_run_sr A_init_sr (replicate 6 (Output msg_a)) = Some sender_full_sr"
  by code_simp

lemma fill_and_send_length [simp]: "length (fill_and_send p is) = length is"
  by (induction "is" arbitrary: p) simp_all

lemma fill_and_send_events:
  "e \<in> set (fill_and_send p is) \<Longrightarrow> \<exists>a. e = ToLayer3 a \<and> acknum a = acknum p \<and> seqnum a = seqnum p"
proof (induction "is" arbitrary: p)
  case Nil
  then show ?case by simp
next
  case (Cons i rest)
  from Cons.prems show ?case
  proof (simp, elim disjE)
    assume "e \<in> set (fill_and_send
       (p\<lparr>payload := (payload p)[i := 48],
            checksum := ComputeChecksum (p\<lparr>payload := (payload p)[i := 48]\<rparr>)\<rparr>) rest)"
    from Cons.IH [OF this] show ?thesis by simp
  qed simp
qed

lemma fill_and_send_filter [simp]:
  "filter is_ToLayer3 (fill_and_send p is) = fill_and_send p is"
  "filter is_ToLayer5 (fill_and_send p is) = []"
  by (induction "is" arbitrary: p) simp_all

section \<open>Rejection of a message when the window is full\<close>

text \<open>
  C3. In both files a call of \<^verbatim>\<open>A_output\<close> in a state with
  \<open>windowcount = WINDOWSIZE\<close> returns the state it was called in with the counter
  \<^verbatim>\<open>window_full\<close> incremented, and its trace is empty: no packet is sent, no timer call
  is made, and buffer, flags, base, next sequence number and window count are as before.
\<close>

theorem A_output_window_full:
  assumes "windowcount s = WINDOWSIZE" and "windowcount t = WINDOWSIZE"
  shows "A_output s message = Some (s\<lparr>window_full := window_full s + 1\<rparr>, []) \<and>
         A_output_sr t message = Some (t\<lparr>window_full := window_full t + 1\<rparr>, [])"
  using assms by (simp add: A_output_def A_output_sr_def)

theorem A_output_window_full_witness:
  "windowcount sender_full = WINDOWSIZE \<and> windowcount sender_full_sr = WINDOWSIZE \<and>
   A_output sender_full msg_a = Some (sender_full\<lparr>window_full := 1\<rparr>, []) \<and>
   A_output_sr sender_full_sr msg_a = Some (sender_full_sr\<lparr>window_full := 1\<rparr>, [])"
proof -
  have s: "windowcount sender_full = WINDOWSIZE"
    by (simp add: sender_full_def WINDOWSIZE_def)
  have t: "windowcount sender_full_sr = WINDOWSIZE"
    by (simp add: sender_full_sr_def WINDOWSIZE_def)
  have "window_full sender_full = 0" and "window_full sender_full_sr = 0"
    by (simp_all add: sender_full_def sender_full_sr_def)
  with A_output_window_full [OF s t, of msg_a] s t show ?thesis by simp
qed

section \<open>Corrupted acknowledgments\<close>

text \<open>
  C6. In both files a call of \<^verbatim>\<open>A_input\<close> with a packet whose checksum does not
  match returns the very state it was called in, counters and timer flag included, with an
  empty trace.
\<close>

theorem A_input_corrupted:
  assumes "IsCorrupted packet"
  shows "A_input s packet = Some (s, []) \<and> A_input_sr t packet = Some (t, [])"
  using assms by (simp add: A_input_def A_input_sr_def)

theorem A_input_corrupted_witness:
  "IsCorrupted bad_pkt \<and> A_input sender_full bad_pkt = Some (sender_full, []) \<and>
   A_input_sr sender_full_sr bad_pkt = Some (sender_full_sr, [])"
  using A_input_corrupted [of bad_pkt sender_full sender_full_sr] by simp

section \<open>Corrupted data packets\<close>

lemma B_receive_corrupted:
  "IsCorrupted packet \<Longrightarrow>
   B_receive s packet = Some (s, [], if rcv_base s = 0 then SEQSPACE - 1 else rcv_base s - 1)"
  by (simp add: B_receive_def)

lemma nack_number:
  "0 \<le> b \<Longrightarrow> b < SEQSPACE \<Longrightarrow> (if b = 0 then SEQSPACE - 1 else b - 1) = (b - 1) mod SEQSPACE"
  by (auto simp: SEQSPACE_def)

text \<open>
  C7. Let the packet handed to \<^verbatim>\<open>B_input\<close> be corrupted and let the base of the receive
  window lie in the sequence space. In part_000 the trace is a single acknowledgment whose
  \<open>acknum\<close> is \<open>(rcv_base - 1) mod SEQSPACE\<close>, which is \<open>SEQSPACE - 1\<close> for base 0
  and \<open>rcv_base - 1\<close> otherwise. In sr.c the trace is not empty and every entry of it is an
  acknowledgment with that \<open>acknum\<close>. In both files nothing is delivered, and the state
  returned differs from the one before only in \<^verbatim>\<open>B_nextseqnum\<close>: base, buffer and
  received flags are unchanged.
\<close>

theorem B_input_corrupted:
  assumes "IsCorrupted packet" and "0 \<le> rcv_base s" and "rcv_base s < SEQSPACE"
    and "0 \<le> rcv_base t" and "rcv_base t < SEQSPACE"
  shows "(\<exists>a. B_input s packet =
              Some (s\<lparr>B_nextseqnum := c_mod (B_nextseqnum s + 1) 2\<rparr>, [ToLayer3 a]) \<and>
            acknum a = (rcv_base s - 1) mod SEQSPACE \<and>
            acknum a = (if rcv_base s = 0 then SEQSPACE - 1 else rcv_base s - 1)) \<and>
         (\<exists>evs. B_input_sr t junk packet =
              Some (t\<lparr>B_nextseqnum := c_mod (B_nextseqnum t + 1) 2\<rparr>, evs) \<and>
            evs \<noteq> [] \<and>
            (\<forall>e \<in> set evs. \<exists>a. e = ToLayer3 a \<and> acknum a = (rcv_base t - 1) mod SEQSPACE \<and>
               acknum a = (if rcv_base t = 0 then SEQSPACE - 1 else rcv_base t - 1)))"
proof -
  let ?n = "if rcv_base s = 0 then SEQSPACE - 1 else rcv_base s - 1"
  let ?m = "if rcv_base t = 0 then SEQSPACE - 1 else rcv_base t - 1"
  have n: "?n = (rcv_base s - 1) mod SEQSPACE"
    using assms(2,3) by (rule nack_number)
  have m: "?m = (rcv_base t - 1) mod SEQSPACE"
    using assms(4,5) by (rule nack_number)
  have r: "B_receive s packet = Some (s, [], ?n)"
    using assms(1) by (rule B_receive_corrupted)
  have r': "B_receive t packet = Some (t, [], ?m)"
    using assms(1) by (rule B_receive_corrupted)
  have "\<exists>a. B_input s packet =
            Some (s\<lparr>B_nextseqnum := c_mod (B_nextseqnum s + 1) 2\<rparr>, [ToLayer3 a]) \<and>
          acknum a = (rcv_base s - 1) mod SEQSPACE \<and> acknum a = ?n"
    using n by (simp add: B_input_def r Let_def del: if_split cong: if_cong)
  moreover
  let ?evs = "fill_and_send
      \<lparr>seqnum = B_nextseqnum t, acknum = ?m, checksum = 0, payload = junk\<rparr> [0..<20]"
  have "B_input_sr t junk packet =
      Some (t\<lparr>B_nextseqnum := c_mod (B_nextseqnum t + 1) 2\<rparr>, ?evs)"
    by (simp add: B_input_sr_def r' del: if_split)
  moreover have "?evs \<noteq> []"
    by (metis fill_and_send_length length_0_conv length_upt zero_neq_numeral diff_zero)
  moreover have "\<forall>e \<in> set ?evs. \<exists>a. e = ToLayer3 a \<and>
      acknum a = (rcv_base t - 1) mod SEQSPACE \<and> acknum a = ?m"
    using fill_and_send_events
      [of _ "\<lparr>seqnum = B_nextseqnum t, acknum = ?m, checksum = 0, payload = junk\<rparr>" "[0..<20]"] m
    by (auto simp del: if_split)
  ultimately show ?thesis by blast
qed

theorem B_input_corrupted_witness:
  "IsCorrupted bad_pkt \<and> 0 \<le> rcv_base B_init \<and> rcv_base B_init < SEQSPACE \<and>
   0 \<le> rcv_base B_init_sr \<and> rcv_base B_init_sr < SEQSPACE \<and>
   (\<exists>a. B_input B_init bad_pkt = Some (B_init\<lparr>B_nextseqnum := 0\<rparr>, [ToLayer3 a]) \<and>
      acknum a = 11) \<and>
   (\<exists>evs. B_input_sr B_init_sr (replicate 20 0) bad_pkt =
        Some (B_init_sr\<lparr>B_nextseqnum := 1\<rparr>, evs) \<and>
      evs \<noteq> [] \<and> (\<forall>e \<in> set evs. \<exists>a. e = ToLayer3 a \<and> acknum a = 11))"
proof -
  have h: "0 \<le> rcv_base B_init" "rcv_base B_init < SEQSPACE"
    "0 \<le> rcv_base B_init_sr" "rcv_base B_init_sr < SEQSPACE"
    by (simp_all add: B_init_def B_init_sr_def SEQSPACE_def)
  have b: "B_nextseqnum B_init = 1" "rcv_base B_init = 0"
    "B_nextseqnum B_init_sr = 0" "rcv_base B_init_sr = 0"
    by (simp_all add: B_init_def B_init_sr_def)
  from B_input_corrupted [OF IsCorrupted_bad_pkt h, of "replicate 20 0"] h show ?thesis
    by (simp add: b SEQSPACE_def c_mod_def)
qed

section \<open>Acknowledgments per call of the receiver\<close>

lemma deliver_loop_defined:
  "length ak = 6 \<Longrightarrow> length buf = 6 \<Longrightarrow> 0 \<le> base \<Longrightarrow> base < SEQSPACE \<Longrightarrow>
   \<exists>ak' base' ds. deliver_loop buf ak base = Some (ak', base', ds) \<and> length ak' = 6 \<and>
     0 \<le> base' \<and> base' < SEQSPACE"
proof (induction buf ak base rule: deliver_loop.induct)
  case (1 buf ak base)
  have r: "in_range ak (c_mod base WINDOWSIZE)" "in_range buf (c_mod base WINDOWSIZE)"
    using "1.prems" by (simp_all add: in_range_def WINDOWSIZE_def)
  show ?case
  proof (cases "ak ! nat (c_mod base WINDOWSIZE)")
    case True
    have "\<exists>ak' base' ds. deliver_loop buf (ak[nat (c_mod base WINDOWSIZE) := False])
            (c_mod (base + 1) SEQSPACE) = Some (ak', base', ds) \<and> length ak' = 6 \<and>
            0 \<le> base' \<and> base' < SEQSPACE"
      using "1.IH" [OF _ True] r "1.prems" by (simp add: SEQSPACE_def)
    then show ?thesis using r True by (subst deliver_loop.simps) auto
  next
    case False
    then show ?thesis using r "1.prems" by (subst deliver_loop.simps) (auto simp: SEQSPACE_def)
  qed
qed

lemma filter_ToLayer5 [simp]:
  "filter is_ToLayer3 (map ToLayer5 ds) = []" "filter is_ToLayer5 (map ToLayer5 ds) = map ToLayer5 ds"
  by (induction ds) simp_all

lemma B_receive_trace:
  "B_receive s packet = Some (s1, evs, ack) \<Longrightarrow> filter is_ToLayer3 evs = []"
  by (auto simp: B_receive_def Let_def split: if_splits option.splits)

lemma B_receive_defined:
  assumes "wf_receiver s" and "IsCorrupted packet \<or> 0 \<le> seqnum packet"
  shows "\<exists>s1 evs ack. B_receive s packet = Some (s1, evs, ack)"
proof (cases "\<not> IsCorrupted packet \<and> in_window (rcv_base s) (seqnum packet)")
  case False
  then show ?thesis by (auto simp: B_receive_def)
next
  case True
  with assms(2) have q: "0 \<le> seqnum packet" by blast
  have l: "length (rcv_buffer s) = 6" "length (rcv_acked s) = 6"
    "0 \<le> rcv_base s" "rcv_base s < SEQSPACE"
    using assms(1) by (simp_all add: wf_receiver_def)
  have r: "in_range (rcv_buffer s) (c_mod (seqnum packet) WINDOWSIZE)"
    "in_range (rcv_acked s) (c_mod (seqnum packet) WINDOWSIZE)"
    using q l by (simp_all add: in_range_def WINDOWSIZE_def)
  show ?thesis
  proof (cases "seqnum packet = rcv_base s")
    case False
    with True r show ?thesis by (simp add: B_receive_def Let_def)
  next
    case eq: True
    obtain ak' base' ds where "deliver_loop
        ((rcv_buffer s)[nat (c_mod (seqnum packet) WINDOWSIZE) := packet])
        ((rcv_acked s)[nat (c_mod (seqnum packet) WINDOWSIZE) := True]) (rcv_base s)
        = Some (ak', base', ds)"
      using deliver_loop_defined [of "(rcv_acked s)[nat (c_mod (seqnum packet) WINDOWSIZE) := True]"
         "(rcv_buffer s)[nat (c_mod (seqnum packet) WINDOWSIZE) := packet]" "rcv_base s"] l
      by auto
    with True r eq show ?thesis by (simp add: B_receive_def Let_def)
  qed
qed

lemma B_input_one_ack:
  assumes "wf_receiver s" and "IsCorrupted packet \<or> 0 \<le> seqnum packet"
  shows "\<exists>s' evs. B_input s packet = Some (s', evs) \<and> length (filter is_ToLayer3 evs) = 1"
proof -
  obtain s1 evs ack where r: "B_receive s packet = Some (s1, evs, ack)"
    using B_receive_defined [OF assms] by blast
  from B_receive_trace [OF r] show ?thesis
    by (simp add: B_input_def r Let_def)
qed

text \<open>
  In part_000 every call of \<^verbatim>\<open>B_input\<close> on a well-formed state, with a packet that is
  corrupted or carries a sequence number that is not negative, returns and hands exactly one
  packet to layer 3 (lemma \<open>B_input_one_ack\<close>). In sr.c every call that returns hands 20
  packets to layer 3, since the call of \<^verbatim>\<open>tolayer3\<close> stands inside the loop that fills
  the payload.
\<close>

lemma B_input_sr_twenty_acks:
  assumes "B_input_sr s junk packet = Some (s', evs)"
  shows "length (filter is_ToLayer3 evs) = 20"
  using assms B_receive_trace [of s packet]
  by (auto simp: B_input_sr_def split: option.splits)

text \<open>
  C1. The claim is that every call of \<^verbatim>\<open>B_input\<close> hands exactly one acknowledgment to
  the channel. For sr.c it fails at the first call: from the initial state, with the
  uncorrupted data packet of sequence number 0, the trace of \<^verbatim>\<open>B_input\<close> holds 20
  packets for layer 3.
\<close>

theorem B_input_sr_sends_twenty:
  "map_option (\<lambda>(s, evs). length (filter is_ToLayer3 evs))
     (B_input_sr B_init_sr (replicate 20 0) (data_pkt 0)) = Some 20"
  by code_simp

section \<open>Window arithmetic\<close>

lemma mod12_high:
  fixes a :: int
  assumes "12 \<le> a" and "a < 24"
  shows "a mod 12 = a - 12"
proof -
  have "a mod 12 = (a - 12) mod 12"
    using assms by (intro mod_pos_geq) simp_all
  also have "\<dots> = a - 12"
    using assms by (intro mod_pos_pos_trivial) simp_all
  finally show ?thesis .
qed

lemma mod12_neg: "- 12 \<le> a \<Longrightarrow> a < 0 \<Longrightarrow> a mod 12 = a + 12" for a :: int
  using mod_add_self2 [of a 12] by (simp del: mod_add_self2)

lemma last_of_window:
  assumes "0 \<le> b" and "b < 12"
  shows "c_mod (b + WINDOWSIZE - 1) SEQSPACE = (if b < 7 then b + 5 else b - 7)"
proof (cases "b < 7")
  case True
  with assms show ?thesis by (simp add: WINDOWSIZE_def SEQSPACE_def)
next
  case False
  with assms have "(5 + b) mod 12 = 5 + b - 12" by (intro mod12_high) simp_all
  with False assms show ?thesis by (simp add: WINDOWSIZE_def SEQSPACE_def)
qed

lemma offset_mod:
  fixes b x :: int
  assumes "0 \<le> b" and "b < 12" and "0 \<le> x" and "x < 12"
  shows "(x - b) mod 12 = (if b \<le> x then x - b else x - b + 12)"
proof (cases "b \<le> x")
  case True
  with assms show ?thesis by simp
next
  case False
  with assms have "(x - b) mod 12 = x - b + 12" by (intro mod12_neg) simp_all
  with False show ?thesis by simp
qed

lemma in_window_iff:
  assumes "0 \<le> b" and "b < SEQSPACE" and "0 \<le> x" and "x < SEQSPACE"
  shows "in_window b x \<longleftrightarrow> (x - b) mod SEQSPACE < WINDOWSIZE"
proof -
  have b: "0 \<le> b" "b < 12" and x: "0 \<le> x" "x < 12"
    using assms by (simp_all add: SEQSPACE_def)
  have "in_window b x \<longleftrightarrow> (if b < 7 then b \<le> x \<and> x \<le> b + 5 else b \<le> x \<or> x \<le> b - 7)"
    unfolding in_window_def last_of_window [OF b] by auto
  also have "\<dots> \<longleftrightarrow> (if b \<le> x then x - b else x - b + 12) < 6"
    using b x by auto
  finally show ?thesis
    unfolding SEQSPACE_def WINDOWSIZE_def offset_mod [OF b x] .
qed

lemma in_window_self: "0 \<le> b \<Longrightarrow> b < SEQSPACE \<Longrightarrow> in_window b b"
  by (simp add: in_window_iff) (simp add: WINDOWSIZE_def SEQSPACE_def)

lemma slot_less [simp]: "slot q < 6"
  by (simp add: slot_def WINDOWSIZE_def nat_less_iff)

lemma slot_next: "slot ((b + 1) mod SEQSPACE + int k) = slot (b + int (Suc k))"
proof -
  have "((b + 1) mod 12 + int k) mod 6 = ((b + 1) mod 12 mod 6 + int k) mod 6"
    by (simp add: mod_add_left_eq)
  also have "(b + 1) mod 12 mod 6 = (b + 1) mod 6"
    by (simp add: mod_mod_cancel)
  finally have "((b + 1) mod 12 + int k) mod 6 = (b + 1 + int k) mod 6"
    by (simp add: mod_add_left_eq)
  then show ?thesis by (simp add: slot_def WINDOWSIZE_def SEQSPACE_def add.assoc)
qed

lemma slot_wrap: "slot (b + 6) = slot b"
  by (simp add: slot_def WINDOWSIZE_def)

lemma slot_c_mod: "0 \<le> b \<Longrightarrow> nat (c_mod b WINDOWSIZE) = slot b"
  by (simp add: slot_def WINDOWSIZE_def)

section \<open>The loop that moves the send window\<close>

text \<open>
  From a base inside the sequence space the loop returns. It advances the base by some
  \<open>n \<le> 6\<close> slots, all of them flagged; it clears exactly their flags; it does not pass
  a point where the count is zero; and it stops because the count has reached zero or
  because the flag of the slot at the new base is not set.
\<close>

lemma slide_loop_spec:
  assumes "length ak = 6" and "0 \<le> base" and "base < SEQSPACE"
  shows "\<exists>n ak'. slide_loop ak base cnt = Some (ak', (base + int n) mod SEQSPACE, cnt - int n) \<and>
      n \<le> 6 \<and> length ak' = 6 \<and>
      (\<forall>k<n. ak ! slot (base + int k)) \<and>
      (\<forall>k. 0 < k \<and> k < n \<longrightarrow> cnt - int k \<noteq> 0) \<and>
      (\<forall>i<6. ak' ! i = (ak ! i \<and> (\<forall>k<n. i \<noteq> slot (base + int k)))) \<and>
      ((0 < n \<and> cnt - int n = 0) \<or> \<not> ak' ! slot (base + int n))"
  using assms
proof (induction ak base cnt rule: slide_loop.induct)
  case (1 ak base cnt)
  have idx: "nat (c_mod base WINDOWSIZE) = slot base" using "1.prems" by (simp add: slot_c_mod)
  have r: "in_range ak (c_mod base WINDOWSIZE)"
    using "1.prems" by (simp add: in_range_def WINDOWSIZE_def)
  have nb: "c_mod (base + 1) SEQSPACE = (base + 1) mod SEQSPACE"
    using "1.prems" by (simp add: SEQSPACE_def)
  show ?case
  proof (cases "ak ! slot base")
    case False
    have "slide_loop ak base cnt = Some (ak, base, cnt)"
      using r False idx by (subst slide_loop.simps) simp
    with False "1.prems" show ?thesis
      by (intro exI [of _ 0] exI [of _ ak]) (simp add: SEQSPACE_def)
  next
    case True
    let ?ak1 = "ak[slot base := False]"
    show ?thesis
    proof (cases "cnt - 1 = 0")
      case z: True
      have "slide_loop ak base cnt = Some (?ak1, (base + 1) mod SEQSPACE, cnt - 1)"
        using r True idx z nb by (subst slide_loop.simps) simp
      with True z "1.prems" show ?thesis
        by (intro exI [of _ 1] exI [of _ ?ak1]) (auto simp: nth_list_update)
    next
      case nz: False
      have eq: "slide_loop ak base cnt = slide_loop ?ak1 ((base + 1) mod SEQSPACE) (cnt - 1)"
        using r True idx nz nb by (subst slide_loop.simps) simp
      have "\<exists>n ak'. slide_loop ?ak1 ((base + 1) mod SEQSPACE) (cnt - 1) =
          Some (ak', ((base + 1) mod SEQSPACE + int n) mod SEQSPACE, cnt - 1 - int n) \<and>
          n \<le> 6 \<and> length ak' = 6 \<and>
          (\<forall>k<n. ?ak1 ! slot ((base + 1) mod SEQSPACE + int k)) \<and>
          (\<forall>k. 0 < k \<and> k < n \<longrightarrow> cnt - 1 - int k \<noteq> 0) \<and>
          (\<forall>i<6. ak' ! i = (?ak1 ! i \<and> (\<forall>k<n. i \<noteq> slot ((base + 1) mod SEQSPACE + int k)))) \<and>
          ((0 < n \<and> cnt - 1 - int n = 0) \<or> \<not> ak' ! slot ((base + 1) mod SEQSPACE + int n))"
        using "1.IH" [OF _ _ nz] r True idx nb "1.prems" by (simp add: SEQSPACE_def)
      then obtain n ak' where
        s: "slide_loop ?ak1 ((base + 1) mod SEQSPACE) (cnt - 1) =
              Some (ak', ((base + 1) mod SEQSPACE + int n) mod SEQSPACE, cnt - 1 - int n)"
        and n6: "n \<le> 6" and len: "length ak' = 6"
        and run: "\<forall>k<n. ?ak1 ! slot (base + int (Suc k))"
        and nzs: "\<forall>k. 0 < k \<and> k < n \<longrightarrow> cnt - 1 - int k \<noteq> 0"
        and pt: "\<forall>i<6. ak' ! i = (?ak1 ! i \<and> (\<forall>k<n. i \<noteq> slot (base + int (Suc k))))"
        and stop: "(0 < n \<and> cnt - 1 - int n = 0) \<or> \<not> ak' ! slot (base + int (Suc n))"
        unfolding slot_next by blast
      have n5: "n \<le> 5"
      proof (rule ccontr)
        assume "\<not> n \<le> 5"
        then have "5 < n" by simp
        with run have "?ak1 ! slot (base + int (Suc 5))" by blast
        then have "?ak1 ! slot base" using slot_wrap [of base] by simp
        then show False using "1.prems" by (simp add: nth_list_update)
      qed
      have b: "((base + 1) mod SEQSPACE + int n) mod SEQSPACE = (base + int (Suc n)) mod SEQSPACE"
        by (simp add: SEQSPACE_def mod_add_left_eq mod_add_right_eq ac_simps)
      have c: "cnt - 1 - int n = cnt - int (Suc n)" by simp
      have run': "\<forall>k<Suc n. ak ! slot (base + int k)"
      proof (intro allI impI)
        fix k assume "k < Suc n"
        show "ak ! slot (base + int k)"
        proof (cases k)
          case 0
          with True show ?thesis by simp
        next
          case (Suc j)
          with \<open>k < Suc n\<close> run have "?ak1 ! slot (base + int (Suc j))" by simp
          with Suc "1.prems" show ?thesis by (simp add: nth_list_update split: if_splits)
        qed
      qed
      have nzs': "\<forall>k. 0 < k \<and> k < Suc n \<longrightarrow> cnt - int k \<noteq> 0"
      proof (intro allI impI)
        fix k assume k: "0 < k \<and> k < Suc n"
        show "cnt - int k \<noteq> 0"
        proof (cases k)
          case 0
          with k show ?thesis by simp
        next
          case (Suc j)
          show ?thesis
          proof (cases "j = 0")
            case True
            with Suc nz show ?thesis by simp
          next
            case False
            with Suc k nzs have "cnt - 1 - int j \<noteq> 0" by simp
            with Suc show ?thesis by simp
          qed
        qed
      qed
      have pt': "\<forall>i<6. ak' ! i = (ak ! i \<and> (\<forall>k<Suc n. i \<noteq> slot (base + int k)))"
      proof (intro allI impI)
        fix i :: nat assume i: "i < 6"
        have "ak' ! i = (?ak1 ! i \<and> (\<forall>k<n. i \<noteq> slot (base + int (Suc k))))"
          using pt i by blast
        also have "?ak1 ! i = (ak ! i \<and> i \<noteq> slot (base + int 0))"
          using i "1.prems" by (auto simp: nth_list_update)
        finally show "ak' ! i = (ak ! i \<and> (\<forall>k<Suc n. i \<noteq> slot (base + int k)))"
          by (simp add: All_less_Suc2 conj_assoc)
      qed
      have stop': "(0 < Suc n \<and> cnt - int (Suc n) = 0) \<or> \<not> ak' ! slot (base + int (Suc n))"
        using stop by auto
      from eq s n5 len run' nzs' pt' stop' show ?thesis
        unfolding b c by (intro exI [of _ "Suc n"] exI [of _ ak']) simp
    qed
  qed
qed

lemma slot_distinct:
  assumes "0 < k" and "k < 6"
  shows "slot (b + int k) \<noteq> slot b"
proof
  assume "slot (b + int k) = slot b"
  then have "(b + int k) mod 6 = b mod 6"
    by (simp add: slot_def WINDOWSIZE_def)
  then have "(6::int) dvd (b + int k) - b"
    by (simp only: mod_eq_dvd_iff)
  then have "(6::int) dvd int k" by simp
  then have "6 dvd k" by presburger
  with assms show False by (auto dest: dvd_imp_le)
qed

lemma slide_after_mark:
  assumes len: "length ak = 6" and b: "0 \<le> base" "base < SEQSPACE"
    and un: "\<not> ak ! slot base"
  shows "\<exists>n ak'. slide_loop (ak[slot base := True]) base cnt =
           Some (ak', (base + int n) mod SEQSPACE, cnt - int n) \<and>
         1 \<le> n \<and> n \<le> 6 \<and> length ak' = 6 \<and>
         (\<forall>k. 0 < k \<and> k < n \<longrightarrow> ak ! slot (base + int k) \<and> cnt - int k \<noteq> 0) \<and>
         (\<forall>i<6. ak' ! i = (ak ! i \<and> (\<forall>k<n. i \<noteq> slot (base + int k)))) \<and>
         (cnt - int n = 0 \<or> \<not> ak' ! slot (base + int n))"
proof -
  let ?m = "ak[slot base := True]"
  have "length ?m = 6" using len by simp
  from slide_loop_spec [OF this b, of cnt] obtain n ak' where
    s: "slide_loop ?m base cnt = Some (ak', (base + int n) mod SEQSPACE, cnt - int n)"
    and n6: "n \<le> 6" and l: "length ak' = 6"
    and run: "\<forall>k<n. ?m ! slot (base + int k)"
    and nz: "\<forall>k. 0 < k \<and> k < n \<longrightarrow> cnt - int k \<noteq> 0"
    and pt: "\<forall>i<6. ak' ! i = (?m ! i \<and> (\<forall>k<n. i \<noteq> slot (base + int k)))"
    and stop: "(0 < n \<and> cnt - int n = 0) \<or> \<not> ak' ! slot (base + int n)"
    by blast
  have n1: "1 \<le> n"
  proof (rule ccontr)
    assume "\<not> 1 \<le> n"
    then have "n = 0" by simp
    with pt [rule_format, of "slot base"] stop len show False by simp
  qed
  have run': "\<forall>k. 0 < k \<and> k < n \<longrightarrow> ak ! slot (base + int k) \<and> cnt - int k \<noteq> 0"
  proof (intro allI impI)
    fix k assume k: "0 < k \<and> k < n"
    with n6 have "slot (base + int k) \<noteq> slot base" by (intro slot_distinct) simp_all
    moreover from k run have "?m ! slot (base + int k)" by simp
    ultimately have "ak ! slot (base + int k)" by (simp add: nth_list_update split: if_splits)
    with k nz show "ak ! slot (base + int k) \<and> cnt - int k \<noteq> 0" by simp
  qed
  have pt': "\<forall>i<6. ak' ! i = (ak ! i \<and> (\<forall>k<n. i \<noteq> slot (base + int k)))"
  proof (intro allI impI)
    fix i :: nat assume i: "i < 6"
    show "ak' ! i = (ak ! i \<and> (\<forall>k<n. i \<noteq> slot (base + int k)))"
    proof (cases "i = slot base")
      case True
      with n1 have "\<not> (\<forall>k<n. i \<noteq> slot (base + int k))" by (auto intro: exI [of _ 0])
      with pt i show ?thesis by blast
    next
      case False
      with pt i len show ?thesis by (simp add: nth_list_update)
    qed
  qed
  from s n1 n6 l run' pt' stop show ?thesis by blast
qed

section \<open>The loop of sr.c that restarts the timer\<close>

text \<open>
  The loop variable is overwritten in the body, so the loop does not visit the slots in
  order. Started at 0 with at most \<open>WINDOWSIZE\<close> packets outstanding it returns all the
  same: for each residue of the base modulo 6 the values the variable takes reach 6.
\<close>

lemma restart_loop_end: "cnt \<le> i \<Longrightarrow> timer_restart (restart_loop ak base nxt cnt i)"
  by (subst restart_loop.simps) (simp add: timer_restart_def)

lemma restart_loop_step:
  assumes "length ak = 6" and "0 \<le> base" and "0 \<le> i"
    and "timer_restart (restart_loop ak base nxt cnt ((base + i) mod 6 + 1))"
  shows "timer_restart (restart_loop ak base nxt cnt i)"
proof -
  have j: "c_mod (base + i) WINDOWSIZE = (base + i) mod 6"
    "c_mod ((base + i) mod 6) WINDOWSIZE = (base + i) mod 6"
    using assms(2,3) by (simp_all add: WINDOWSIZE_def)
  have r: "in_range ak ((base + i) mod 6)"
    using assms(1) by (simp add: in_range_def)
  show ?thesis
    using assms(4) r by (subst restart_loop.simps) (simp add: j timer_restart_def)
qed

lemma restart_loop_defined:
  assumes len: "length ak = 6" and b: "0 \<le> base" and c: "cnt \<le> 6"
  shows "timer_restart (restart_loop ak base nxt cnt 0)"
proof -
  note step = restart_loop_step [OF len b, of _ nxt cnt]
  have m: "(base + i) mod 6 = (base mod 6 + i) mod 6" for i
    by (simp add: mod_add_left_eq)
  have e: "timer_restart (restart_loop ak base nxt cnt 6)"
    using c by (rule restart_loop_end)
  have "0 \<le> base mod 6" and "base mod 6 < 6" by simp_all
  then consider "base mod 6 = 0" | "base mod 6 = 1" | "base mod 6 = 2" | "base mod 6 = 3"
    | "base mod 6 = 4" | "base mod 6 = 5"
    by linarith
  then show ?thesis
  proof cases
    case 1
    have "timer_restart (restart_loop ak base nxt cnt 5)" using step [of 5] e by (simp add: m 1)
    then have "timer_restart (restart_loop ak base nxt cnt 4)" using step [of 4] by (simp add: m 1)
    then have "timer_restart (restart_loop ak base nxt cnt 3)" using step [of 3] by (simp add: m 1)
    then have "timer_restart (restart_loop ak base nxt cnt 2)" using step [of 2] by (simp add: m 1)
    then have "timer_restart (restart_loop ak base nxt cnt 1)" using step [of 1] by (simp add: m 1)
    then show ?thesis using step [of 0] by (simp add: m 1)
  next
    case 2
    have "timer_restart (restart_loop ak base nxt cnt 4)" using step [of 4] e by (simp add: m 2)
    then have "timer_restart (restart_loop ak base nxt cnt 2)" using step [of 2] by (simp add: m 2)
    then show ?thesis using step [of 0] by (simp add: m 2)
  next
    case 3
    have "timer_restart (restart_loop ak base nxt cnt 3)" using step [of 3] e by (simp add: m 3)
    then show ?thesis using step [of 0] by (simp add: m 3)
  next
    case 4
    have "timer_restart (restart_loop ak base nxt cnt 2)" using step [of 2] e by (simp add: m 4)
    then have "timer_restart (restart_loop ak base nxt cnt 4)" using step [of 4] by (simp add: m 4)
    then show ?thesis using step [of 0] by (simp add: m 4)
  next
    case 5
    have "timer_restart (restart_loop ak base nxt cnt 1)" using step [of 1] e by (simp add: m 5)
    then have "timer_restart (restart_loop ak base nxt cnt 2)" using step [of 2] by (simp add: m 5)
    then have "timer_restart (restart_loop ak base nxt cnt 3)" using step [of 3] by (simp add: m 5)
    then have "timer_restart (restart_loop ak base nxt cnt 4)" using step [of 4] by (simp add: m 5)
    then have "timer_restart (restart_loop ak base nxt cnt 5)" using step [of 5] by (simp add: m 5)
    then show ?thesis using step [of 0] by (simp add: m 5)
  next
    case 6
    show ?thesis using step [of 0] e by (simp add: m 6)
  qed
qed

section \<open>An acknowledgment for the base of the window\<close>

lemma sender_gap_reached:
  "A_run sender_full [Input (ack_pkt 1), Input (ack_pkt 2)] = Some sender_gap"
  "A_run_sr sender_full_sr [Input (ack_pkt 1), Input (ack_pkt 2)] = Some sender_gap_sr"
  by code_simp+

text \<open>
  C5. Take a sender state with arrays of \<open>WINDOWSIZE\<close> entries and a base inside the
  sequence space (for sr.c also with at most \<open>WINDOWSIZE\<close> packets outstanding, which
  makes its timer loop return), and an uncorrupted acknowledgment whose \<open>acknum\<close> is the
  base while the slot of the base is not flagged; such a number passes the window test.
  Then \<^verbatim>\<open>A_input\<close> returns, in both files, a state in which the window has moved by
  some \<open>n\<close> with \<open>1 \<le> n \<le> 6\<close> in the sense of \<open>window_slid\<close>: the base is
  \<open>(send_base + n) mod SEQSPACE\<close>, the count is \<open>windowcount - n\<close>, the slots passed
  after the first were flagged before, exactly the flags of the slots passed are cleared,
  the count was not zero before the last step, and at the end the count is zero or the slot
  at the new base is not flagged.
\<close>

theorem A_input_slides_window:
  assumes "length (acked s) = 6" and "0 \<le> send_base s" and "send_base s < SEQSPACE"
    and "\<not> IsCorrupted p" and "acknum p = send_base s" and "\<not> acked s ! slot (send_base s)"
    and "length (acked t) = 6" and "0 \<le> send_base t" and "send_base t < SEQSPACE"
    and "windowcount t \<le> WINDOWSIZE"
    and "\<not> IsCorrupted q" and "acknum q = send_base t" and "\<not> acked t ! slot (send_base t)"
  shows "(\<exists>n s' evs. A_input s p = Some (s', evs) \<and> window_slid s s' n) \<and>
         (\<exists>n t' evs. A_input_sr t q = Some (t', evs) \<and> window_slid t t' n)"
proof
  let ?b = "send_base s"
  have w: "in_window ?b (acknum p)"
    using assms(2,3,5) by (simp add: in_window_self)
  have i: "nat (c_mod (acknum p) WINDOWSIZE) = slot ?b" "in_range (acked s) (c_mod (acknum p) WINDOWSIZE)"
    using assms(1,2,5) by (simp_all add: slot_def in_range_def WINDOWSIZE_def)
  from slide_after_mark [OF assms(1,2,3,6), of "windowcount s"] obtain n ak' where
    sl: "slide_loop ((acked s)[slot ?b := True]) ?b (windowcount s) =
           Some (ak', (?b + int n) mod SEQSPACE, windowcount s - int n)"
    and f: "1 \<le> n" "n \<le> 6" "length ak' = 6"
      "\<forall>k. 0 < k \<and> k < n \<longrightarrow> acked s ! slot (?b + int k) \<and> windowcount s - int k \<noteq> 0"
      "\<forall>i<6. ak' ! i = (acked s ! i \<and> (\<forall>k<n. i \<noteq> slot (?b + int k)))"
      "windowcount s - int n = 0 \<or> \<not> ak' ! slot (?b + int n)"
    by blast
  obtain s' evs where r: "A_input s p = Some (s', evs)" and e: "acked s' = ak'"
    "send_base s' = (?b + int n) mod SEQSPACE" "windowcount s' = windowcount s - int n"
    using assms(4,5,6) w i sl by (cases "0 < windowcount s - int n") (simp_all add: A_input_def Let_def)
  have "window_slid s s' n"
    unfolding window_slid_def e using f by blast
  with r show "\<exists>n s' evs. A_input s p = Some (s', evs) \<and> window_slid s s' n"
    by blast
next
  let ?b = "send_base t"
  have w: "in_window ?b (acknum q)"
    using assms(8,9,12) by (simp add: in_window_self)
  have i: "nat (c_mod (acknum q) WINDOWSIZE) = slot ?b" "in_range (acked t) (c_mod (acknum q) WINDOWSIZE)"
    using assms(7,8,12) by (simp_all add: slot_def in_range_def WINDOWSIZE_def)
  from slide_after_mark [OF assms(7,8,9,13), of "windowcount t"] obtain n ak' where
    sl: "slide_loop ((acked t)[slot ?b := True]) ?b (windowcount t) =
           Some (ak', (?b + int n) mod SEQSPACE, windowcount t - int n)"
    and f: "1 \<le> n" "n \<le> 6" "length ak' = 6"
      "\<forall>k. 0 < k \<and> k < n \<longrightarrow> acked t ! slot (?b + int k) \<and> windowcount t - int k \<noteq> 0"
      "\<forall>i<6. ak' ! i = (acked t ! i \<and> (\<forall>k<n. i \<noteq> slot (?b + int k)))"
      "windowcount t - int n = 0 \<or> \<not> ak' ! slot (?b + int n)"
    by blast
  have "timer_restart (restart_loop ak' ((?b + int n) mod SEQSPACE) (A_nextseqnum t)
      (windowcount t - int n) 0)"
    using f(3) assms(10) by (intro restart_loop_defined) (simp_all add: SEQSPACE_def WINDOWSIZE_def)
  then obtain evs where
    "restart_loop ak' ((?b + int n) mod SEQSPACE) (A_nextseqnum t) (windowcount t - int n) 0 = Some evs"
    by (auto simp: timer_restart_def)
  then obtain t' evs' where r: "A_input_sr t q = Some (t', evs')" and e: "acked t' = ak'"
    "send_base t' = (?b + int n) mod SEQSPACE" "windowcount t' = windowcount t - int n"
    using assms(11,12,13) w i sl
    by (cases "0 < windowcount t - int n") (simp_all add: A_input_sr_def Let_def)
  have "window_slid t t' n"
    unfolding window_slid_def e using f by blast
  with r show "\<exists>n t' evs. A_input_sr t q = Some (t', evs) \<and> window_slid t t' n"
    by blast
qed

theorem A_input_slides_window_witness:
  "length (acked sender_gap) = 6 \<and> 0 \<le> send_base sender_gap \<and> send_base sender_gap < SEQSPACE \<and>
   \<not> IsCorrupted (ack_pkt 0) \<and> acknum (ack_pkt 0) = send_base sender_gap \<and>
   \<not> acked sender_gap ! slot (send_base sender_gap) \<and>
   length (acked sender_gap_sr) = 6 \<and> 0 \<le> send_base sender_gap_sr \<and>
   send_base sender_gap_sr < SEQSPACE \<and> windowcount sender_gap_sr \<le> WINDOWSIZE \<and>
   acknum (ack_pkt 0) = send_base sender_gap_sr \<and>
   \<not> acked sender_gap_sr ! slot (send_base sender_gap_sr) \<and>
   (\<exists>n s' evs. A_input sender_gap (ack_pkt 0) = Some (s', evs) \<and> window_slid sender_gap s' n) \<and>
   (\<exists>n t' evs. A_input_sr sender_gap_sr (ack_pkt 0) = Some (t', evs) \<and>
      window_slid sender_gap_sr t' n)"
proof -
  have s: "length (acked sender_gap) = 6" "0 \<le> send_base sender_gap"
    "send_base sender_gap < SEQSPACE" "\<not> IsCorrupted (ack_pkt 0)"
    "acknum (ack_pkt 0) = send_base sender_gap" "\<not> acked sender_gap ! slot (send_base sender_gap)"
    by (simp_all add: sender_gap_def sender_full_def SEQSPACE_def WINDOWSIZE_def slot_def)
  have t: "length (acked sender_gap_sr) = 6" "0 \<le> send_base sender_gap_sr"
    "send_base sender_gap_sr < SEQSPACE" "windowcount sender_gap_sr \<le> WINDOWSIZE"
    "\<not> IsCorrupted (ack_pkt 0)"
    "acknum (ack_pkt 0) = send_base sender_gap_sr"
    "\<not> acked sender_gap_sr ! slot (send_base sender_gap_sr)"
    by (simp_all add: sender_gap_sr_def sender_full_sr_def SEQSPACE_def WINDOWSIZE_def slot_def)
  from A_input_slides_window [OF s t] s t show ?thesis by simp
qed

text \<open>In this example the window moves by three slots and stops at packet 3.\<close>

lemma A_input_slides_window_example:
  "A_input sender_gap (ack_pkt 0) =
     Some (sender_gap\<lparr>acked := replicate 6 False, send_base := 3, windowcount := 3,
             total_ACKs_received := 3, new_ACKs := 3\<rparr>, [StopTimer, StartTimer])"
  "A_input_sr sender_gap_sr (ack_pkt 0) =
     Some (sender_gap_sr\<lparr>acked := replicate 6 False, send_base := 3, windowcount := 3,
             total_ACKs_received := 3, new_ACKs := 3\<rparr>, [StopTimer, StartTimer])"
  by code_simp+

section \<open>The branches of \<^verbatim>\<open>A_input\<close>\<close>

text \<open>
  One equation per path through the handler: an acknowledgment outside the window, a
  duplicate, a new acknowledgment that is not for the base, and a new acknowledgment for
  the base.
\<close>

lemma A_input_outside:
  "\<not> IsCorrupted p \<Longrightarrow> \<not> in_window (send_base s) (acknum p) \<Longrightarrow>
   A_input s p = Some (s\<lparr>total_ACKs_received := total_ACKs_received s + 1\<rparr>, [])"
  by (simp add: A_input_def)

lemma A_input_dup:
  "\<not> IsCorrupted p \<Longrightarrow> in_window (send_base s) (acknum p) \<Longrightarrow>
   in_range (acked s) (c_mod (acknum p) WINDOWSIZE) \<Longrightarrow>
   acked s ! nat (c_mod (acknum p) WINDOWSIZE) \<Longrightarrow>
   A_input s p = Some (s\<lparr>total_ACKs_received := total_ACKs_received s + 1\<rparr>, [])"
  by (simp add: A_input_def)

lemma A_input_new:
  "\<not> IsCorrupted p \<Longrightarrow> in_window (send_base s) (acknum p) \<Longrightarrow>
   in_range (acked s) (c_mod (acknum p) WINDOWSIZE) \<Longrightarrow>
   \<not> acked s ! nat (c_mod (acknum p) WINDOWSIZE) \<Longrightarrow> acknum p \<noteq> send_base s \<Longrightarrow>
   A_input s p = Some (s\<lparr>total_ACKs_received := total_ACKs_received s + 1,
     new_ACKs := new_ACKs s + 1,
     acked := (acked s)[nat (c_mod (acknum p) WINDOWSIZE) := True]\<rparr>, [])"
  by (simp add: A_input_def)

lemma A_input_base:
  "\<not> IsCorrupted p \<Longrightarrow> in_window (send_base s) (acknum p) \<Longrightarrow>
   in_range (acked s) (c_mod (acknum p) WINDOWSIZE) \<Longrightarrow>
   \<not> acked s ! nat (c_mod (acknum p) WINDOWSIZE) \<Longrightarrow> acknum p = send_base s \<Longrightarrow>
   slide_loop ((acked s)[nat (c_mod (acknum p) WINDOWSIZE) := True]) (send_base s) (windowcount s)
     = Some (ak, base, cnt) \<Longrightarrow>
   A_input s p = Some (s\<lparr>total_ACKs_received := total_ACKs_received s + 1,
     new_ACKs := new_ACKs s + 1, acked := ak, send_base := base, windowcount := cnt,
     timer_running := 0 < cnt\<rparr>, if 0 < cnt then [StopTimer, StartTimer] else [StopTimer])"
  by (simp add: A_input_def)

lemma A_input_sr_outside:
  "\<not> IsCorrupted p \<Longrightarrow> \<not> in_window (send_base s) (acknum p) \<Longrightarrow>
   A_input_sr s p = Some (s\<lparr>total_ACKs_received := total_ACKs_received s + 1\<rparr>, [])"
  by (simp add: A_input_sr_def)

lemma A_input_sr_dup:
  "\<not> IsCorrupted p \<Longrightarrow> in_window (send_base s) (acknum p) \<Longrightarrow>
   in_range (acked s) (c_mod (acknum p) WINDOWSIZE) \<Longrightarrow>
   acked s ! nat (c_mod (acknum p) WINDOWSIZE) \<Longrightarrow>
   A_input_sr s p = Some (s\<lparr>total_ACKs_received := total_ACKs_received s + 1\<rparr>, [])"
  by (simp add: A_input_sr_def)

lemma A_input_sr_new:
  "\<not> IsCorrupted p \<Longrightarrow> in_window (send_base s) (acknum p) \<Longrightarrow>
   in_range (acked s) (c_mod (acknum p) WINDOWSIZE) \<Longrightarrow>
   \<not> acked s ! nat (c_mod (acknum p) WINDOWSIZE) \<Longrightarrow> acknum p \<noteq> send_base s \<Longrightarrow>
   (if 0 < windowcount s
    then restart_loop ((acked s)[nat (c_mod (acknum p) WINDOWSIZE) := True]) (send_base s)
           (A_nextseqnum s) (windowcount s) 0
    else Some []) = Some evs \<Longrightarrow>
   A_input_sr s p = Some (s\<lparr>total_ACKs_received := total_ACKs_received s + 1,
     new_ACKs := new_ACKs s + 1,
     acked := (acked s)[nat (c_mod (acknum p) WINDOWSIZE) := True]\<rparr>, StopTimer # evs)"
  by (cases "0 < windowcount s") (simp_all add: A_input_sr_def)

lemma A_input_sr_base:
  "\<not> IsCorrupted p \<Longrightarrow> in_window (send_base s) (acknum p) \<Longrightarrow>
   in_range (acked s) (c_mod (acknum p) WINDOWSIZE) \<Longrightarrow>
   \<not> acked s ! nat (c_mod (acknum p) WINDOWSIZE) \<Longrightarrow> acknum p = send_base s \<Longrightarrow>
   slide_loop ((acked s)[nat (c_mod (acknum p) WINDOWSIZE) := True]) (send_base s) (windowcount s)
     = Some (ak, base, cnt) \<Longrightarrow>
   (if 0 < cnt then restart_loop ak base (A_nextseqnum s) cnt 0 else Some []) = Some evs \<Longrightarrow>
   A_input_sr s p = Some (s\<lparr>total_ACKs_received := total_ACKs_received s + 1,
     new_ACKs := new_ACKs s + 1, acked := ak, send_base := base, windowcount := cnt\<rparr>,
     StopTimer # evs)"
  by (cases "0 < cnt") (simp_all add: A_input_sr_def)

lemma not_in_window_behind:
  assumes "0 \<le> b" and "b < SEQSPACE" and "1 \<le> n" and "n \<le> 6"
  shows "\<not> in_window ((b + int n) mod SEQSPACE) b"
proof -
  let ?b' = "(b + int n) mod 12"
  have r: "0 \<le> ?b'" "?b' < 12" by simp_all
  have "(b - ?b') mod 12 = (b - (b + int n)) mod 12"
    by (simp add: mod_diff_right_eq)
  also have "\<dots> = (- int n) mod 12" by simp
  also have "\<dots> = - int n + 12"
    using assms(3,4) by (intro mod12_neg) simp_all
  finally have "\<not> (b - ?b') mod 12 < 6" using assms(4) by simp
  then show ?thesis
    using in_window_iff [of ?b' b] r assms(1,2) by (simp add: SEQSPACE_def WINDOWSIZE_def)
qed

section \<open>Duplicate acknowledgments\<close>

lemma A_input_twice:
  assumes len: "length (acked s) = 6" and b: "0 \<le> send_base s" "send_base s < SEQSPACE"
    and p: "IsCorrupted p \<or> 0 \<le> acknum p"
  shows "\<exists>s1 evs. A_input s p = Some (s1, evs) \<and>
           A_input s1 p = Some (s1\<lparr>total_ACKs_received :=
              total_ACKs_received s1 + (if IsCorrupted p then 0 else 1)\<rparr>, [])"
proof (cases "IsCorrupted p")
  case True
  then have "A_input s p = Some (s, [])" by (simp add: A_input_def)
  with True show ?thesis by simp
next
  case nc: False
  with p have a: "0 \<le> acknum p" by simp
  let ?i = "nat (c_mod (acknum p) WINDOWSIZE)"
  let ?s = "s\<lparr>total_ACKs_received := total_ACKs_received s + 1\<rparr>"
  have r: "in_range (acked s) (c_mod (acknum p) WINDOWSIZE)" and i6: "?i < 6"
    using a len by (simp_all add: in_range_def WINDOWSIZE_def nat_less_iff)
  show ?thesis
  proof (cases "in_window (send_base s) (acknum p)")
    case False
    then have "A_input s p = Some (?s, [])" "\<not> in_window (send_base ?s) (acknum p)"
      using nc by (simp_all add: A_input_outside)
    with A_input_outside [OF nc this(2)] nc show ?thesis by simp
  next
    case w: True
    show ?thesis
    proof (cases "acked s ! ?i")
      case True
      have 1: "A_input s p = Some (?s, [])" using nc w r True by (rule A_input_dup)
      have "A_input ?s p = Some (?s\<lparr>total_ACKs_received := total_ACKs_received ?s + 1\<rparr>, [])"
        using nc w r True by (intro A_input_dup) simp_all
      with 1 nc show ?thesis by simp
    next
      case un: False
      show ?thesis
      proof (cases "acknum p = send_base s")
        case False
        let ?s1 = "s\<lparr>total_ACKs_received := total_ACKs_received s + 1,
          new_ACKs := new_ACKs s + 1, acked := (acked s)[?i := True]\<rparr>"
        have 1: "A_input s p = Some (?s1, [])" using nc w r un False by (rule A_input_new)
        have "A_input ?s1 p = Some (?s1\<lparr>total_ACKs_received := total_ACKs_received ?s1 + 1\<rparr>, [])"
          using nc w r len i6 by (intro A_input_dup) (simp_all add: in_range_def)
        with 1 nc show ?thesis by simp
      next
        case eq: True
        have i: "?i = slot (send_base s)" using eq b by (simp add: slot_def WINDOWSIZE_def)
        from slide_after_mark [OF len b, of "windowcount s"] un i obtain n ak' where
          sl: "slide_loop ((acked s)[?i := True]) (send_base s) (windowcount s) =
                 Some (ak', (send_base s + int n) mod SEQSPACE, windowcount s - int n)"
          and n: "1 \<le> n" "n \<le> 6"
          by auto
        have out: "\<not> in_window ((send_base s + int n) mod SEQSPACE) (acknum p)"
          unfolding eq using b n by (rule not_in_window_behind)
        let ?s1 = "s\<lparr>total_ACKs_received := total_ACKs_received s + 1,
          new_ACKs := new_ACKs s + 1, acked := ak',
          send_base := (send_base s + int n) mod SEQSPACE, windowcount := windowcount s - int n,
          timer_running := 0 < windowcount s - int n\<rparr>"
        have 1: "A_input s p = Some (?s1,
            if 0 < windowcount s - int n then [StopTimer, StartTimer] else [StopTimer])"
          using nc w r un eq sl by (rule A_input_base)
        have "A_input ?s1 p = Some (?s1\<lparr>total_ACKs_received := total_ACKs_received ?s1 + 1\<rparr>, [])"
          using nc out by (intro A_input_outside) simp_all
        with 1 nc show ?thesis by simp
      qed
    qed
  qed
qed

lemma A_input_sr_twice:
  assumes len: "length (acked s) = 6" and b: "0 \<le> send_base s" "send_base s < SEQSPACE"
    and c: "windowcount s \<le> WINDOWSIZE"
    and p: "IsCorrupted p \<or> 0 \<le> acknum p"
  shows "\<exists>s1 evs. A_input_sr s p = Some (s1, evs) \<and>
           A_input_sr s1 p = Some (s1\<lparr>total_ACKs_received :=
              total_ACKs_received s1 + (if IsCorrupted p then 0 else 1)\<rparr>, [])"
proof (cases "IsCorrupted p")
  case True
  then have "A_input_sr s p = Some (s, [])" by (simp add: A_input_sr_def)
  with True show ?thesis by simp
next
  case nc: False
  with p have a: "0 \<le> acknum p" by simp
  let ?i = "nat (c_mod (acknum p) WINDOWSIZE)"
  let ?s = "s\<lparr>total_ACKs_received := total_ACKs_received s + 1\<rparr>"
  have r: "in_range (acked s) (c_mod (acknum p) WINDOWSIZE)" and i6: "?i < 6"
    using a len by (simp_all add: in_range_def WINDOWSIZE_def nat_less_iff)
  show ?thesis
  proof (cases "in_window (send_base s) (acknum p)")
    case False
    then have "A_input_sr s p = Some (?s, [])" "\<not> in_window (send_base ?s) (acknum p)"
      using nc by (simp_all add: A_input_sr_outside)
    with A_input_sr_outside [OF nc this(2)] nc show ?thesis by simp
  next
    case w: True
    show ?thesis
    proof (cases "acked s ! ?i")
      case True
      have 1: "A_input_sr s p = Some (?s, [])" using nc w r True by (rule A_input_sr_dup)
      have "A_input_sr ?s p = Some (?s\<lparr>total_ACKs_received := total_ACKs_received ?s + 1\<rparr>, [])"
        using nc w r True by (intro A_input_sr_dup) simp_all
      with 1 nc show ?thesis by simp
    next
      case un: False
      show ?thesis
      proof (cases "acknum p = send_base s")
        case False
        let ?s1 = "s\<lparr>total_ACKs_received := total_ACKs_received s + 1,
          new_ACKs := new_ACKs s + 1, acked := (acked s)[?i := True]\<rparr>"
        have "timer_restart (restart_loop ((acked s)[?i := True]) (send_base s) (A_nextseqnum s)
            (windowcount s) 0)"
          using len b c by (intro restart_loop_defined) (simp_all add: WINDOWSIZE_def)
        then have "\<exists>evs. (if 0 < windowcount s
            then restart_loop ((acked s)[?i := True]) (send_base s) (A_nextseqnum s)
                   (windowcount s) 0
            else Some []) = Some evs"
          by (cases "0 < windowcount s") (auto simp: timer_restart_def)
        then obtain evs where "(if 0 < windowcount s
            then restart_loop ((acked s)[?i := True]) (send_base s) (A_nextseqnum s)
                   (windowcount s) 0
            else Some []) = Some evs"
          by blast
        with nc w r un False have 1: "A_input_sr s p = Some (?s1, StopTimer # evs)"
          by (rule A_input_sr_new)
        have "A_input_sr ?s1 p = Some (?s1\<lparr>total_ACKs_received := total_ACKs_received ?s1 + 1\<rparr>, [])"
          using nc w r len i6 by (intro A_input_sr_dup) (simp_all add: in_range_def)
        with 1 nc show ?thesis by simp
      next
        case eq: True
        have i: "?i = slot (send_base s)" using eq b by (simp add: slot_def WINDOWSIZE_def)
        from slide_after_mark [OF len b, of "windowcount s"] un i obtain n ak' where
          sl: "slide_loop ((acked s)[?i := True]) (send_base s) (windowcount s) =
                 Some (ak', (send_base s + int n) mod SEQSPACE, windowcount s - int n)"
          and n: "1 \<le> n" "n \<le> 6" and l: "length ak' = 6"
          by auto
        have out: "\<not> in_window ((send_base s + int n) mod SEQSPACE) (acknum p)"
          unfolding eq using b n by (rule not_in_window_behind)
        have "timer_restart (restart_loop ak' ((send_base s + int n) mod SEQSPACE) (A_nextseqnum s)
            (windowcount s - int n) 0)"
          using l c by (intro restart_loop_defined) (simp_all add: SEQSPACE_def WINDOWSIZE_def)
        then have "\<exists>evs. (if 0 < windowcount s - int n
            then restart_loop ak' ((send_base s + int n) mod SEQSPACE) (A_nextseqnum s)
                   (windowcount s - int n) 0
            else Some []) = Some evs"
          by (cases "0 < windowcount s - int n") (auto simp: timer_restart_def)
        then obtain evs where "(if 0 < windowcount s - int n
            then restart_loop ak' ((send_base s + int n) mod SEQSPACE) (A_nextseqnum s)
                   (windowcount s - int n) 0
            else Some []) = Some evs"
          by blast
        let ?s1 = "s\<lparr>total_ACKs_received := total_ACKs_received s + 1,
          new_ACKs := new_ACKs s + 1, acked := ak',
          send_base := (send_base s + int n) mod SEQSPACE, windowcount := windowcount s - int n\<rparr>"
        have 1: "A_input_sr s p = Some (?s1, StopTimer # evs)"
          using nc w r un eq sl \<open>_ = Some evs\<close> by (rule A_input_sr_base)
        have "A_input_sr ?s1 p = Some (?s1\<lparr>total_ACKs_received := total_ACKs_received ?s1 + 1\<rparr>, [])"
          using nc out by (intro A_input_sr_outside) simp_all
        with 1 nc show ?thesis by simp
      qed
    qed
  qed
qed

text \<open>
  C8. Take a sender state with arrays of \<open>WINDOWSIZE\<close> entries and a base inside the
  sequence space (for sr.c also with at most \<open>WINDOWSIZE\<close> packets outstanding), and a
  packet that is corrupted or whose \<open>acknum\<close> is not negative. In both files: if the
  packet is an uncorrupted acknowledgment inside the window whose slot is already flagged,
  \<^verbatim>\<open>A_input\<close> returns the state it was called in with only the counter
  \<^verbatim>\<open>total_ACKs_received\<close> incremented, and an empty trace (no flag changes, no slide,
  no timer call, no packet). And for every such state and packet, applying \<^verbatim>\<open>A_input\<close>
  twice gives, at the second call, the state after the first call up to that counter, again
  with an empty trace.
\<close>

theorem A_input_duplicate:
  assumes "length (acked s) = 6" and "0 \<le> send_base s" and "send_base s < SEQSPACE"
    and "length (acked t) = 6" and "0 \<le> send_base t" and "send_base t < SEQSPACE"
    and "windowcount t \<le> WINDOWSIZE"
    and "IsCorrupted p \<or> 0 \<le> acknum p"
  shows "(\<not> IsCorrupted p \<and> in_window (send_base s) (acknum p) \<and>
            acked s ! nat (c_mod (acknum p) WINDOWSIZE) \<longrightarrow>
          A_input s p = Some (s\<lparr>total_ACKs_received := total_ACKs_received s + 1\<rparr>, [])) \<and>
         (\<not> IsCorrupted p \<and> in_window (send_base t) (acknum p) \<and>
            acked t ! nat (c_mod (acknum p) WINDOWSIZE) \<longrightarrow>
          A_input_sr t p = Some (t\<lparr>total_ACKs_received := total_ACKs_received t + 1\<rparr>, [])) \<and>
         (\<exists>s1 evs. A_input s p = Some (s1, evs) \<and>
            A_input s1 p = Some (s1\<lparr>total_ACKs_received :=
              total_ACKs_received s1 + (if IsCorrupted p then 0 else 1)\<rparr>, [])) \<and>
         (\<exists>t1 evs. A_input_sr t p = Some (t1, evs) \<and>
            A_input_sr t1 p = Some (t1\<lparr>total_ACKs_received :=
              total_ACKs_received t1 + (if IsCorrupted p then 0 else 1)\<rparr>, []))"
proof (intro conjI impI)
  assume d: "\<not> IsCorrupted p \<and> in_window (send_base s) (acknum p) \<and>
    acked s ! nat (c_mod (acknum p) WINDOWSIZE)"
  with assms(8) have "in_range (acked s) (c_mod (acknum p) WINDOWSIZE)"
    using assms(1) by (simp add: in_range_def WINDOWSIZE_def)
  with d show "A_input s p = Some (s\<lparr>total_ACKs_received := total_ACKs_received s + 1\<rparr>, [])"
    by (simp add: A_input_dup)
next
  assume d: "\<not> IsCorrupted p \<and> in_window (send_base t) (acknum p) \<and>
    acked t ! nat (c_mod (acknum p) WINDOWSIZE)"
  with assms(8) have "in_range (acked t) (c_mod (acknum p) WINDOWSIZE)"
    using assms(4) by (simp add: in_range_def WINDOWSIZE_def)
  with d show "A_input_sr t p = Some (t\<lparr>total_ACKs_received := total_ACKs_received t + 1\<rparr>, [])"
    by (simp add: A_input_sr_dup)
next
  show "\<exists>s1 evs. A_input s p = Some (s1, evs) \<and>
      A_input s1 p = Some (s1\<lparr>total_ACKs_received :=
        total_ACKs_received s1 + (if IsCorrupted p then 0 else 1)\<rparr>, [])"
    using assms(1,2,3,8) by (rule A_input_twice)
next
  show "\<exists>t1 evs. A_input_sr t p = Some (t1, evs) \<and>
      A_input_sr t1 p = Some (t1\<lparr>total_ACKs_received :=
        total_ACKs_received t1 + (if IsCorrupted p then 0 else 1)\<rparr>, [])"
    using assms(4,5,6,7,8) by (rule A_input_sr_twice)
qed

theorem A_input_duplicate_witness:
  "length (acked sender_gap) = 6 \<and> 0 \<le> send_base sender_gap \<and> send_base sender_gap < SEQSPACE \<and>
   length (acked sender_gap_sr) = 6 \<and> 0 \<le> send_base sender_gap_sr \<and>
   send_base sender_gap_sr < SEQSPACE \<and> windowcount sender_gap_sr \<le> WINDOWSIZE \<and>
   0 \<le> acknum (ack_pkt 1) \<and> \<not> IsCorrupted (ack_pkt 1) \<and>
   in_window (send_base sender_gap) (acknum (ack_pkt 1)) \<and>
   acked sender_gap ! nat (c_mod (acknum (ack_pkt 1)) WINDOWSIZE) \<and>
   in_window (send_base sender_gap_sr) (acknum (ack_pkt 1)) \<and>
   acked sender_gap_sr ! nat (c_mod (acknum (ack_pkt 1)) WINDOWSIZE) \<and>
   A_input sender_gap (ack_pkt 1) = Some (sender_gap\<lparr>total_ACKs_received := 3\<rparr>, []) \<and>
   A_input_sr sender_gap_sr (ack_pkt 1) = Some (sender_gap_sr\<lparr>total_ACKs_received := 3\<rparr>, []) \<and>
   (\<exists>s1 evs. A_input sender_gap (ack_pkt 1) = Some (s1, evs) \<and>
      A_input s1 (ack_pkt 1) = Some (s1\<lparr>total_ACKs_received := total_ACKs_received s1 + 1\<rparr>, [])) \<and>
   (\<exists>t1 evs. A_input_sr sender_gap_sr (ack_pkt 1) = Some (t1, evs) \<and>
      A_input_sr t1 (ack_pkt 1) = Some (t1\<lparr>total_ACKs_received := total_ACKs_received t1 + 1\<rparr>, []))"
proof -
  have h: "length (acked sender_gap) = 6" "0 \<le> send_base sender_gap"
    "send_base sender_gap < SEQSPACE"
    "length (acked sender_gap_sr) = 6" "0 \<le> send_base sender_gap_sr"
    "send_base sender_gap_sr < SEQSPACE" "windowcount sender_gap_sr \<le> WINDOWSIZE"
    "IsCorrupted (ack_pkt 1) \<or> 0 \<le> acknum (ack_pkt 1)"
    by (simp_all add: sender_gap_def sender_full_def sender_gap_sr_def sender_full_sr_def
        SEQSPACE_def WINDOWSIZE_def)
  have d: "in_window (send_base sender_gap) (acknum (ack_pkt 1))"
    "acked sender_gap ! nat (c_mod (acknum (ack_pkt 1)) WINDOWSIZE)"
    "in_window (send_base sender_gap_sr) (acknum (ack_pkt 1))"
    "acked sender_gap_sr ! nat (c_mod (acknum (ack_pkt 1)) WINDOWSIZE)"
    by (simp_all add: sender_gap_def sender_full_def sender_gap_sr_def sender_full_sr_def
        in_window_def SEQSPACE_def WINDOWSIZE_def)
  have c: "total_ACKs_received sender_gap = 2" "total_ACKs_received sender_gap_sr = 2"
    by (simp_all add: sender_gap_def sender_gap_sr_def)
  from A_input_duplicate [OF h] h d c show ?thesis by auto
qed

text \<open>
  The acknowledgment of the base, applied twice to the example state: the first call moves
  the window, the second finds the number outside the window.
\<close>

lemma A_input_twice_example:
  "A_run sender_gap [Input (ack_pkt 0)] =
     Some (sender_gap\<lparr>acked := replicate 6 False, send_base := 3, windowcount := 3,
             total_ACKs_received := 3, new_ACKs := 3\<rparr>)"
  "A_run sender_gap [Input (ack_pkt 0), Input (ack_pkt 0)] =
     Some (sender_gap\<lparr>acked := replicate 6 False, send_base := 3, windowcount := 3,
             total_ACKs_received := 4, new_ACKs := 3\<rparr>)"
  by code_simp+

section \<open>Delivery in order\<close>

lemma delivered_append [simp]: "delivered (xs @ ys) = delivered xs @ delivered ys"
  by (induction xs rule: delivered.induct) simp_all

lemma delivered_map [simp]: "delivered (map ToLayer5 ds) = ds"
  by (induction ds) simp_all

lemma delivered_fill_and_send [simp]: "delivered (fill_and_send p is) = []"
  by (induction "is" arbitrary: p) simp_all

lemma seq_unique:
  assumes q: "0 \<le> q" "q < 12" and b: "0 \<le> b" "b < 12"
    and s: "slot q = slot b" and w: "(q - b) mod 12 < 6"
  shows "q = b"
proof -
  from s have "q mod 6 = b mod 6" by (simp add: slot_def WINDOWSIZE_def)
  then have "(6::int) dvd q - b" by (simp only: mod_eq_dvd_iff)
  then obtain k where k: "q - b = 6 * k" by (auto simp: dvd_def)
  with q b have "- 2 < k" "k < 2" by simp_all
  then consider "k = - 1" | "k = 0" | "k = 1" by linarith
  then show ?thesis
  proof cases
    case 1
    with k w offset_mod [OF b q] show ?thesis by (simp split: if_splits)
  next
    case 2
    with k show ?thesis by simp
  next
    case 3
    with k w offset_mod [OF b q] show ?thesis by (simp split: if_splits)
  qed
qed

lemma offset_next:
  fixes q b :: int
  assumes q: "0 \<le> q" "q < 12" and b: "0 \<le> b" "b < 12" and ne: "q \<noteq> b"
    and w: "(q - b) mod 12 < 6"
  shows "(q - (b + 1) mod 12) mod 12 < 6"
proof -
  have pos: "0 < (q - b) mod 12"
    using offset_mod [OF b q] ne q b by (simp split: if_splits)
  have "(q - (b + 1) mod 12) mod 12 = (q - (b + 1)) mod 12"
    by (simp add: mod_diff_right_eq)
  also have "\<dots> = ((q - b) mod 12 - 1) mod 12"
    by (simp add: mod_diff_left_eq algebra_simps)
  also have "\<dots> = (q - b) mod 12 - 1"
    using pos w by (intro mod_pos_pos_trivial) simp_all
  finally show ?thesis using w by simp
qed

lemma base_shift: "((b + 1) mod SEQSPACE + int n) mod SEQSPACE = (b + int (Suc n)) mod SEQSPACE"
  by (simp add: SEQSPACE_def mod_add_left_eq mod_add_right_eq ac_simps)

lemma deliver_loop_spec:
  assumes "length buf = 6" and "length ak = 6" and "0 \<le> base" and "base < SEQSPACE"
    and "slots_ok buf ak base"
  shows "\<exists>ak' ds. deliver_loop buf ak base = Some (ak', (base + int (length ds)) mod SEQSPACE, ds) \<and>
      length ak' = 6 \<and> slots_ok buf ak' ((base + int (length ds)) mod SEQSPACE) \<and>
      map seqnum ds = map (\<lambda>k. (base + int k) mod SEQSPACE) [0..<length ds]"
  using assms
proof (induction buf ak base rule: deliver_loop.induct)
  case (1 buf ak base)
  have idx: "nat (c_mod base WINDOWSIZE) = slot base" using "1.prems" by (simp add: slot_c_mod)
  have r: "in_range ak (c_mod base WINDOWSIZE)" "in_range buf (c_mod base WINDOWSIZE)"
    using "1.prems" by (simp_all add: in_range_def WINDOWSIZE_def)
  have nb: "c_mod (base + 1) SEQSPACE = (base + 1) mod SEQSPACE"
    using "1.prems" by (simp add: SEQSPACE_def)
  have b12: "0 \<le> base" "base < 12" using "1.prems" by (simp_all add: SEQSPACE_def)
  show ?case
  proof (cases "ak ! slot base")
    case False
    have "deliver_loop buf ak base = Some (ak, base, [])"
      using r False idx by (subst deliver_loop.simps) simp
    with "1.prems" show ?thesis
      by (intro exI [of _ ak] exI [of _ "[]"]) (simp add: SEQSPACE_def)
  next
    case True
    let ?ak1 = "ak[slot base := False]"
    let ?b1 = "(base + 1) mod SEQSPACE"
    have ok: "\<forall>i<6. ak ! i \<longrightarrow>
        0 \<le> seqnum (buf ! i) \<and> seqnum (buf ! i) < 12 \<and> slot (seqnum (buf ! i)) = i \<and>
        (seqnum (buf ! i) - base) mod 12 < 6"
      using "1.prems"(5) by (simp add: slots_ok_def SEQSPACE_def WINDOWSIZE_def)
    have first: "seqnum (buf ! slot base) = base"
      using ok [rule_format, of "slot base"] True b12 by (intro seq_unique) simp_all
    have ok1: "slots_ok buf ?ak1 ?b1"
      unfolding slots_ok_def
    proof (intro allI impI)
      fix i :: nat assume i: "i < 6" and f: "?ak1 ! i"
      then have ne: "i \<noteq> slot base" and a: "ak ! i"
        using "1.prems"(2) by (auto simp: nth_list_update split: if_splits)
      from ok i a have q: "0 \<le> seqnum (buf ! i)" "seqnum (buf ! i) < 12"
        "slot (seqnum (buf ! i)) = i" "(seqnum (buf ! i) - base) mod 12 < 6"
        by blast+
      from q(3) ne have "seqnum (buf ! i) \<noteq> base" by auto
      with q b12 have "(seqnum (buf ! i) - (base + 1) mod 12) mod 12 < 6"
        by (intro offset_next) simp_all
      with q show "0 \<le> seqnum (buf ! i) \<and> seqnum (buf ! i) < SEQSPACE \<and>
          slot (seqnum (buf ! i)) = i \<and>
          (seqnum (buf ! i) - ?b1) mod SEQSPACE < WINDOWSIZE"
        by (simp add: SEQSPACE_def WINDOWSIZE_def)
    qed
    have "\<exists>ak' ds. deliver_loop buf ?ak1 ?b1 = Some (ak', (?b1 + int (length ds)) mod SEQSPACE, ds) \<and>
        length ak' = 6 \<and> slots_ok buf ak' ((?b1 + int (length ds)) mod SEQSPACE) \<and>
        map seqnum ds = map (\<lambda>k. (?b1 + int k) mod SEQSPACE) [0..<length ds]"
      using "1.IH" [OF _ _ _] r True idx nb "1.prems" ok1 by (simp add: SEQSPACE_def)
    then obtain ak' ds where
      d: "deliver_loop buf ?ak1 ?b1 = Some (ak', (base + int (Suc (length ds))) mod SEQSPACE, ds)"
      and l: "length ak' = 6"
      and o: "slots_ok buf ak' ((base + int (Suc (length ds))) mod SEQSPACE)"
      and m: "map seqnum ds = map (\<lambda>k. (base + int (Suc k)) mod SEQSPACE) [0..<length ds]"
      unfolding base_shift by blast
    let ?ds = "buf ! slot base # ds"
    have "deliver_loop buf ak base = Some (ak', (base + int (length ?ds)) mod SEQSPACE, ?ds)"
      using r True idx nb d by (subst deliver_loop.simps) simp
    moreover have "map seqnum ?ds = map (\<lambda>k. (base + int k) mod SEQSPACE) [0..<length ?ds]"
      using first m b12 by (simp add: map_upt_Suc SEQSPACE_def del: upt_Suc)
    ultimately show ?thesis using l o by (intro exI [of _ ak'] exI [of _ ?ds]) simp
  qed
qed

lemma B_receive_outside:
  "\<not> IsCorrupted p \<Longrightarrow> \<not> in_window (rcv_base s) (seqnum p) \<Longrightarrow>
   B_receive s p = Some (s, [], seqnum p)"
  by (simp add: B_receive_def)

lemma B_receive_buffer:
  "\<not> IsCorrupted p \<Longrightarrow> in_window (rcv_base s) (seqnum p) \<Longrightarrow>
   in_range (rcv_buffer s) (c_mod (seqnum p) WINDOWSIZE) \<Longrightarrow>
   in_range (rcv_acked s) (c_mod (seqnum p) WINDOWSIZE) \<Longrightarrow>
   seqnum p \<noteq> rcv_base s \<Longrightarrow>
   B_receive s p = Some (s\<lparr>packets_received := packets_received s + 1,
     rcv_buffer := (rcv_buffer s)[nat (c_mod (seqnum p) WINDOWSIZE) := p],
     rcv_acked := (rcv_acked s)[nat (c_mod (seqnum p) WINDOWSIZE) := True]\<rparr>, [], seqnum p)"
  by (simp add: B_receive_def Let_def)

lemma B_receive_deliver:
  "\<not> IsCorrupted p \<Longrightarrow> in_window (rcv_base s) (seqnum p) \<Longrightarrow>
   in_range (rcv_buffer s) (c_mod (seqnum p) WINDOWSIZE) \<Longrightarrow>
   in_range (rcv_acked s) (c_mod (seqnum p) WINDOWSIZE) \<Longrightarrow>
   seqnum p = rcv_base s \<Longrightarrow>
   deliver_loop ((rcv_buffer s)[nat (c_mod (seqnum p) WINDOWSIZE) := p])
     ((rcv_acked s)[nat (c_mod (seqnum p) WINDOWSIZE) := True]) (rcv_base s) = Some (ak, base, ds) \<Longrightarrow>
   B_receive s p = Some (s\<lparr>packets_received := packets_received s + 1,
     rcv_buffer := (rcv_buffer s)[nat (c_mod (seqnum p) WINDOWSIZE) := p],
     rcv_acked := ak, rcv_base := base\<rparr>, map ToLayer5 ds, seqnum p)"
  by (simp add: B_receive_def Let_def)

lemma slots_ok_store:
  assumes "slots_ok buf ak base" and "length buf = 6" and "length ak = 6"
    and "0 \<le> base" and "base < SEQSPACE" and "0 \<le> seqnum p" and "seqnum p < SEQSPACE"
    and "in_window base (seqnum p)"
  shows "slots_ok (buf[slot (seqnum p) := p]) (ak[slot (seqnum p) := True]) base"
  unfolding slots_ok_def
proof (intro allI impI)
  fix i :: nat assume i: "i < 6" and f: "ak[slot (seqnum p) := True] ! i"
  let ?q = "seqnum (buf[slot (seqnum p) := p] ! i)"
  show "0 \<le> ?q \<and> ?q < SEQSPACE \<and> slot ?q = i \<and> (?q - base) mod SEQSPACE < WINDOWSIZE"
  proof (cases "i = slot (seqnum p)")
    case True
    with assms(2,4-8) show ?thesis by (simp add: in_window_iff)
  next
    case False
    with f i assms(1) show ?thesis by (simp add: slots_ok_def)
  qed
qed

lemma B_receive_spec:
  assumes inv: "rcv_inv s" and p: "IsCorrupted p \<or> (0 \<le> seqnum p \<and> seqnum p < SEQSPACE)"
  shows "\<exists>s' ds ack. B_receive s p = Some (s', map ToLayer5 ds, ack) \<and> rcv_inv s' \<and>
      rcv_base s' = (rcv_base s + int (length ds)) mod SEQSPACE \<and>
      map seqnum ds = map (\<lambda>k. (rcv_base s + int k) mod SEQSPACE) [0..<length ds]"
proof -
  have l: "length (rcv_buffer s) = 6" "length (rcv_acked s) = 6"
    and b: "0 \<le> rcv_base s" "rcv_base s < SEQSPACE"
    and ok: "slots_ok (rcv_buffer s) (rcv_acked s) (rcv_base s)"
    using inv by (simp_all add: rcv_inv_def wf_receiver_def)
  have same: "rcv_base s = (rcv_base s + int (length ([]::pkt list))) mod SEQSPACE"
    using b by (simp add: SEQSPACE_def)
  show ?thesis
  proof (cases "\<not> IsCorrupted p \<and> in_window (rcv_base s) (seqnum p)")
    case False
    then have "\<exists>ack. B_receive s p = Some (s, map ToLayer5 [], ack)"
      by (cases "IsCorrupted p") (simp_all add: B_receive_corrupted B_receive_outside)
    with inv same show ?thesis by (intro exI [of _ s] exI [of _ "[]"]) auto
  next
    case True
    with p have nc: "\<not> IsCorrupted p" and w: "in_window (rcv_base s) (seqnum p)"
      and q: "0 \<le> seqnum p" "seqnum p < SEQSPACE"
      by auto
    let ?i = "nat (c_mod (seqnum p) WINDOWSIZE)"
    have i: "?i = slot (seqnum p)" using q by (simp add: slot_def WINDOWSIZE_def)
    have r: "in_range (rcv_buffer s) (c_mod (seqnum p) WINDOWSIZE)"
      "in_range (rcv_acked s) (c_mod (seqnum p) WINDOWSIZE)"
      using q l by (simp_all add: in_range_def WINDOWSIZE_def)
    have ok1: "slots_ok ((rcv_buffer s)[?i := p]) ((rcv_acked s)[?i := True]) (rcv_base s)"
      unfolding i using ok l b q w by (rule slots_ok_store)
    show ?thesis
    proof (cases "seqnum p = rcv_base s")
      case False
      let ?s1 = "s\<lparr>packets_received := packets_received s + 1,
        rcv_buffer := (rcv_buffer s)[?i := p], rcv_acked := (rcv_acked s)[?i := True]\<rparr>"
      have "B_receive s p = Some (?s1, map ToLayer5 [], seqnum p)"
        using B_receive_buffer [OF nc w r False] by simp
      moreover have "rcv_inv ?s1"
        using ok1 l b by (simp add: rcv_inv_def wf_receiver_def)
      ultimately show ?thesis using same by (intro exI [of _ ?s1] exI [of _ "[]"]) auto
    next
      case eq: True
      from deliver_loop_spec [OF _ _ b ok1] l obtain ak' ds where
        d: "deliver_loop ((rcv_buffer s)[?i := p]) ((rcv_acked s)[?i := True]) (rcv_base s) =
              Some (ak', (rcv_base s + int (length ds)) mod SEQSPACE, ds)"
        and l': "length ak' = 6"
        and o: "slots_ok ((rcv_buffer s)[?i := p]) ak' ((rcv_base s + int (length ds)) mod SEQSPACE)"
        and m: "map seqnum ds = map (\<lambda>k. (rcv_base s + int k) mod SEQSPACE) [0..<length ds]"
        by auto
      let ?s1 = "s\<lparr>packets_received := packets_received s + 1,
        rcv_buffer := (rcv_buffer s)[?i := p], rcv_acked := ak',
        rcv_base := (rcv_base s + int (length ds)) mod SEQSPACE\<rparr>"
      have "B_receive s p = Some (?s1, map ToLayer5 ds, seqnum p)"
        using nc w r eq d by (rule B_receive_deliver)
      moreover have "rcv_inv ?s1"
        using o l l' by (simp add: rcv_inv_def wf_receiver_def SEQSPACE_def)
      ultimately show ?thesis using m by (intro exI [of _ ?s1] exI [of _ ds]) auto
    qed
  qed
qed

lemma rcv_inv_B_nextseqnum [simp]: "rcv_inv (s\<lparr>B_nextseqnum := n\<rparr>) = rcv_inv s"
  by (simp add: rcv_inv_def wf_receiver_def)

lemma B_input_spec:
  assumes inv: "rcv_inv s" and p: "IsCorrupted p \<or> (0 \<le> seqnum p \<and> seqnum p < SEQSPACE)"
  shows "\<exists>s' evs. B_input s p = Some (s', evs) \<and> rcv_inv s' \<and>
      rcv_base s' = (rcv_base s + int (length (delivered evs))) mod SEQSPACE \<and>
      map seqnum (delivered evs) =
        map (\<lambda>k. (rcv_base s + int k) mod SEQSPACE) [0..<length (delivered evs)]"
proof -
  from B_receive_spec [OF inv p] obtain s1 ds ack where
    "B_receive s p = Some (s1, map ToLayer5 ds, ack)" "rcv_inv s1"
    "rcv_base s1 = (rcv_base s + int (length ds)) mod SEQSPACE"
    "map seqnum ds = map (\<lambda>k. (rcv_base s + int k) mod SEQSPACE) [0..<length ds]"
    by blast
  then show ?thesis by (simp add: B_input_def Let_def)
qed

lemma B_input_sr_spec:
  assumes inv: "rcv_inv s" and p: "IsCorrupted p \<or> (0 \<le> seqnum p \<and> seqnum p < SEQSPACE)"
  shows "\<exists>s' evs. B_input_sr s junk p = Some (s', evs) \<and> rcv_inv s' \<and>
      rcv_base s' = (rcv_base s + int (length (delivered evs))) mod SEQSPACE \<and>
      map seqnum (delivered evs) =
        map (\<lambda>k. (rcv_base s + int k) mod SEQSPACE) [0..<length (delivered evs)]"
proof -
  from B_receive_spec [OF inv p] obtain s1 ds ack where
    "B_receive s p = Some (s1, map ToLayer5 ds, ack)" "rcv_inv s1"
    "rcv_base s1 = (rcv_base s + int (length ds)) mod SEQSPACE"
    "map seqnum ds = map (\<lambda>k. (rcv_base s + int k) mod SEQSPACE) [0..<length ds]"
    by blast
  then show ?thesis by (simp add: B_input_sr_def)
qed

lemma consecutive_nth:
  "xs = map (\<lambda>k. (b + int k) mod SEQSPACE) [0..<length xs] \<longleftrightarrow>
   (\<forall>i<length xs. xs ! i = (b + int i) mod SEQSPACE)"
proof
  assume e: "xs = map (\<lambda>k. (b + int k) mod SEQSPACE) [0..<length xs]"
  show "\<forall>i<length xs. xs ! i = (b + int i) mod SEQSPACE"
  proof (intro allI impI)
    fix i assume i: "i < length xs"
    have "xs ! i = map (\<lambda>k. (b + int k) mod SEQSPACE) [0..<length xs] ! i"
      by (rule arg_cong [OF e, of "\<lambda>l. l ! i"])
    also have "\<dots> = (b + int i) mod SEQSPACE"
      using i by simp
    finally show "xs ! i = (b + int i) mod SEQSPACE" .
  qed
next
  assume "\<forall>i<length xs. xs ! i = (b + int i) mod SEQSPACE"
  then show "xs = map (\<lambda>k. (b + int k) mod SEQSPACE) [0..<length xs]"
    by (intro nth_equalityI) simp_all
qed

lemma consecutive_append:
  assumes "xs = map (\<lambda>k. (b + int k) mod SEQSPACE) [0..<length xs]"
    and "ys = map (\<lambda>k. ((b + int (length xs)) mod SEQSPACE + int k) mod SEQSPACE) [0..<length ys]"
  shows "xs @ ys = map (\<lambda>k. (b + int k) mod SEQSPACE) [0..<length (xs @ ys)]"
proof -
  note x = assms(1) [unfolded consecutive_nth]
  note y = assms(2) [unfolded consecutive_nth]
  have "\<forall>i<length (xs @ ys). (xs @ ys) ! i = (b + int i) mod SEQSPACE"
  proof (intro allI impI)
    fix i assume i: "i < length (xs @ ys)"
    show "(xs @ ys) ! i = (b + int i) mod SEQSPACE"
    proof (cases "i < length xs")
      case True
      with x show ?thesis by (simp add: nth_append)
    next
      case False
      with i have j: "i - length xs < length ys" by simp
      have "(xs @ ys) ! i = ys ! (i - length xs)" using False by (simp add: nth_append)
      also have "\<dots> = ((b + int (length xs)) mod SEQSPACE + int (i - length xs)) mod SEQSPACE"
        using y j by blast
      also have "\<dots> = (b + int (length xs) + int (i - length xs)) mod SEQSPACE"
        by (simp only: mod_add_left_eq)
      also have "b + int (length xs) + int (i - length xs) = b + int i"
        using False by simp
      finally show ?thesis .
    qed
  qed
  then show ?thesis by (simp only: consecutive_nth)
qed

lemma rcv_inv_init: "rcv_inv B_init" "rcv_inv B_init_sr"
  by (simp_all add: rcv_inv_def wf_receiver_def slots_ok_def B_init_def B_init_sr_def SEQSPACE_def)

lemma B_run_spec:
  assumes "rcv_inv s"
    and "\<forall>p\<in>set ps. IsCorrupted p \<or> (0 \<le> seqnum p \<and> seqnum p < SEQSPACE)"
  shows "\<exists>s' evs. B_run s ps = Some (s', evs) \<and> rcv_inv s' \<and>
      rcv_base s' = (rcv_base s + int (length (delivered evs))) mod SEQSPACE \<and>
      map seqnum (delivered evs) =
        map (\<lambda>k. (rcv_base s + int k) mod SEQSPACE) [0..<length (delivered evs)]"
  using assms
proof (induction ps arbitrary: s)
  case Nil
  then have "0 \<le> rcv_base s" "rcv_base s < 12"
    by (simp_all add: rcv_inv_def wf_receiver_def SEQSPACE_def)
  with Nil show ?case by (simp add: SEQSPACE_def)
next
  case (Cons p ps)
  from Cons.prems(2) have p: "IsCorrupted p \<or> (0 \<le> seqnum p \<and> seqnum p < SEQSPACE)"
    and ps: "\<forall>p\<in>set ps. IsCorrupted p \<or> (0 \<le> seqnum p \<and> seqnum p < SEQSPACE)"
    by simp_all
  from B_input_spec [OF Cons.prems(1) p] obtain s1 e1 where
    1: "B_input s p = Some (s1, e1)" "rcv_inv s1"
    "rcv_base s1 = (rcv_base s + int (length (delivered e1))) mod SEQSPACE"
    "map seqnum (delivered e1) =
       map (\<lambda>k. (rcv_base s + int k) mod SEQSPACE) [0..<length (delivered e1)]"
    by blast
  from Cons.IH [OF 1(2) ps] obtain s2 e2 where
    2: "B_run s1 ps = Some (s2, e2)" "rcv_inv s2"
    "rcv_base s2 = (rcv_base s1 + int (length (delivered e2))) mod SEQSPACE"
    "map seqnum (delivered e2) =
       map (\<lambda>k. (rcv_base s1 + int k) mod SEQSPACE) [0..<length (delivered e2)]"
    by blast
  have r: "B_run s (p # ps) = Some (s2, e1 @ e2)"
    using 1(1) 2(1) by simp
  have b: "rcv_base s2 = (rcv_base s + int (length (delivered (e1 @ e2)))) mod SEQSPACE"
    unfolding 2(3) 1(3) by (simp add: mod_add_left_eq mod_add_right_eq ac_simps)
  have "map seqnum (delivered e1) @ map seqnum (delivered e2) =
      map (\<lambda>k. (rcv_base s + int k) mod SEQSPACE)
        [0..<length (map seqnum (delivered e1) @ map seqnum (delivered e2))]"
    using 1(4) 2(4) unfolding 1(3) by (intro consecutive_append) simp_all
  then have m: "map seqnum (delivered (e1 @ e2)) =
      map (\<lambda>k. (rcv_base s + int k) mod SEQSPACE) [0..<length (delivered (e1 @ e2))]"
    by simp
  from r 2(2) b m show ?case by blast
qed

lemma B_run_sr_spec:
  assumes "rcv_inv s"
    and "\<forall>jp\<in>set jps. IsCorrupted (snd jp) \<or> (0 \<le> seqnum (snd jp) \<and> seqnum (snd jp) < SEQSPACE)"
  shows "\<exists>s' evs. B_run_sr s jps = Some (s', evs) \<and> rcv_inv s' \<and>
      rcv_base s' = (rcv_base s + int (length (delivered evs))) mod SEQSPACE \<and>
      map seqnum (delivered evs) =
        map (\<lambda>k. (rcv_base s + int k) mod SEQSPACE) [0..<length (delivered evs)]"
  using assms
proof (induction jps arbitrary: s)
  case Nil
  then have "0 \<le> rcv_base s" "rcv_base s < 12"
    by (simp_all add: rcv_inv_def wf_receiver_def SEQSPACE_def)
  with Nil show ?case by (simp add: SEQSPACE_def)
next
  case (Cons jp jps)
  from Cons.prems(2) have p: "IsCorrupted (snd jp) \<or> (0 \<le> seqnum (snd jp) \<and> seqnum (snd jp) < SEQSPACE)"
    and ps: "\<forall>jp\<in>set jps. IsCorrupted (snd jp) \<or> (0 \<le> seqnum (snd jp) \<and> seqnum (snd jp) < SEQSPACE)"
    by simp_all
  from B_input_sr_spec [OF Cons.prems(1) p, of "fst jp"] obtain s1 e1 where
    1: "B_input_sr s (fst jp) (snd jp) = Some (s1, e1)" "rcv_inv s1"
    "rcv_base s1 = (rcv_base s + int (length (delivered e1))) mod SEQSPACE"
    "map seqnum (delivered e1) =
       map (\<lambda>k. (rcv_base s + int k) mod SEQSPACE) [0..<length (delivered e1)]"
    by blast
  from Cons.IH [OF 1(2) ps] obtain s2 e2 where
    2: "B_run_sr s1 jps = Some (s2, e2)" "rcv_inv s2"
    "rcv_base s2 = (rcv_base s1 + int (length (delivered e2))) mod SEQSPACE"
    "map seqnum (delivered e2) =
       map (\<lambda>k. (rcv_base s1 + int k) mod SEQSPACE) [0..<length (delivered e2)]"
    by blast
  have r: "B_run_sr s (jp # jps) = Some (s2, e1 @ e2)"
    using 1(1) 2(1) by simp
  have b: "rcv_base s2 = (rcv_base s + int (length (delivered (e1 @ e2)))) mod SEQSPACE"
    unfolding 2(3) 1(3) by (simp add: mod_add_left_eq mod_add_right_eq ac_simps)
  have "map seqnum (delivered e1) @ map seqnum (delivered e2) =
      map (\<lambda>k. (rcv_base s + int k) mod SEQSPACE)
        [0..<length (map seqnum (delivered e1) @ map seqnum (delivered e2))]"
    using 1(4) 2(4) unfolding 1(3) by (intro consecutive_append) simp_all
  then have m: "map seqnum (delivered (e1 @ e2)) =
      map (\<lambda>k. (rcv_base s + int k) mod SEQSPACE) [0..<length (delivered (e1 @ e2))]"
    by simp
  from r 2(2) b m show ?case by blast
qed

text \<open>
  C2. Start the receiver in its initial state and hand it any list of packets each of which
  is corrupted or carries a sequence number in \<open>[0, SEQSPACE)\<close>, the range of the sender's
  numbers; duplicates, packets outside the window and any order are allowed. In both files
  the run returns, and the sequence numbers of the packets whose payloads went to layer 5
  are, in the order of delivery, \<open>0, 1, 2, \<dots>\<close> modulo \<open>SEQSPACE\<close>: consecutive, without
  a gap and without a repetition. The base of the window is the number of deliveries modulo
  \<open>SEQSPACE\<close>.
\<close>

theorem B_run_in_order:
  assumes "\<forall>p\<in>set ps. IsCorrupted p \<or> (0 \<le> seqnum p \<and> seqnum p < SEQSPACE)"
    and "\<forall>jp\<in>set jps. IsCorrupted (snd jp) \<or> (0 \<le> seqnum (snd jp) \<and> seqnum (snd jp) < SEQSPACE)"
  shows "(\<exists>s evs. B_run B_init ps = Some (s, evs) \<and>
            map seqnum (delivered evs) = map (\<lambda>k. int k mod SEQSPACE) [0..<length (delivered evs)] \<and>
            rcv_base s = int (length (delivered evs)) mod SEQSPACE) \<and>
         (\<exists>s evs. B_run_sr B_init_sr jps = Some (s, evs) \<and>
            map seqnum (delivered evs) = map (\<lambda>k. int k mod SEQSPACE) [0..<length (delivered evs)] \<and>
            rcv_base s = int (length (delivered evs)) mod SEQSPACE)"
proof -
  have z: "rcv_base B_init = 0" "rcv_base B_init_sr = 0"
    by (simp_all add: B_init_def B_init_sr_def)
  from B_run_spec [OF rcv_inv_init(1) assms(1)] B_run_sr_spec [OF rcv_inv_init(2) assms(2)]
  show ?thesis unfolding z by (simp only: add_0) blast
qed

theorem B_run_in_order_witness:
  "list_all (\<lambda>p. IsCorrupted p \<or> (0 \<le> seqnum p \<and> seqnum p < SEQSPACE)) arrivals \<and>
   (\<exists>s evs. B_run B_init arrivals = Some (s, evs) \<and>
      map seqnum (delivered evs) = map (\<lambda>k. int k mod SEQSPACE) [0..<length (delivered evs)] \<and>
      rcv_base s = int (length (delivered evs)) mod SEQSPACE) \<and>
   (\<exists>s evs. B_run_sr B_init_sr (map (Pair (replicate 20 0)) arrivals) = Some (s, evs) \<and>
      map seqnum (delivered evs) = map (\<lambda>k. int k mod SEQSPACE) [0..<length (delivered evs)] \<and>
      rcv_base s = int (length (delivered evs)) mod SEQSPACE)"
proof -
  have 1: "\<forall>p\<in>set arrivals. IsCorrupted p \<or> (0 \<le> seqnum p \<and> seqnum p < SEQSPACE)"
    by (simp add: arrivals_def SEQSPACE_def)
  have 2: "\<forall>jp\<in>set (map (Pair (replicate 20 0)) arrivals).
      IsCorrupted (snd jp) \<or> (0 \<le> seqnum (snd jp) \<and> seqnum (snd jp) < SEQSPACE)"
    by (simp add: arrivals_def SEQSPACE_def)
  have "list_all (\<lambda>p. IsCorrupted p \<or> (0 \<le> seqnum p \<and> seqnum p < SEQSPACE)) arrivals"
    unfolding list_all_iff by (rule 1)
  with B_run_in_order [OF 1 2] show ?thesis by blast
qed

lemma B_run_in_order_example:
  "map_option (\<lambda>(s, evs). (map seqnum (delivered evs), rcv_base s)) (B_run B_init arrivals) =
     Some ([0, 1, 2], 3)"
  "map_option (\<lambda>(s, evs). (map seqnum (delivered evs), rcv_base s))
     (B_run_sr B_init_sr (map (Pair (replicate 20 0)) arrivals)) = Some ([0, 1, 2], 3)"
  by code_simp+

section \<open>The effect of one call on the window variables\<close>

lemma A_output_effect: "A_output s message = Some (s', evs) \<Longrightarrow> output_effect s s'"
  by (auto simp: A_output_def output_effect_def same_window_def Let_def split: if_splits)

lemma A_output_sr_effect: "A_output_sr s message = Some (s', evs) \<Longrightarrow> output_effect s s'"
  by (auto simp: A_output_sr_def output_effect_def same_window_def Let_def split: if_splits)

lemma A_timerinterrupt_effect: "A_timerinterrupt s = Some (s', evs) \<Longrightarrow> same_window s s'"
  by (auto simp: A_timerinterrupt_def same_window_def Let_def split: if_splits)

lemma resend_loop_effect:
  assumes "resend_loop s i = Some r"
  shows "same_window s (fst r)"
proof (rule resend_loop.raw_induct [where P = "\<lambda>s i r. same_window s (fst r)", OF _ assms],
    goal_cases)
  case (1 f s i r)
  note IH = 1(1) and body = 1(2)
  let ?j = "c_mod (c_mod (send_base s + i) SEQSPACE) WINDOWSIZE"
  show ?case
  proof (cases "i < windowcount s")
    case False
    with body show ?thesis by (auto simp: same_window_def)
  next
    case True
    note lt = this
    show ?thesis
    proof (cases "in_range (acked s) ?j")
      case False
      with lt body show ?thesis by simp
    next
      case True
      note r = this
      show ?thesis
      proof (cases "\<not> acked s ! nat ?j \<and> c_mod (send_base s + ?j) SEQSPACE \<noteq> A_nextseqnum s")
        case False
        with lt r body have "f s (?j + 1) = Some r" by (simp cong: if_cong)
        then show ?thesis by (rule IH)
      next
        case True
        with lt r body show ?thesis
          by (cases "in_range (buffer s) ?j") (auto simp: same_window_def)
      qed
    qed
  qed
qed

lemma A_timerinterrupt_sr_effect: "A_timerinterrupt_sr s = Some (s', evs) \<Longrightarrow> same_window s s'"
  using resend_loop_effect [of s 0 "(s', evs)"] by (simp add: A_timerinterrupt_sr_def)

lemma A_input_undefined:
  "\<not> IsCorrupted p \<Longrightarrow> in_window (send_base s) (acknum p) \<Longrightarrow>
   \<not> in_range (acked s) (c_mod (acknum p) WINDOWSIZE) \<Longrightarrow> A_input s p = None"
  by (simp add: A_input_def)

lemma A_input_slide_undefined:
  "\<not> IsCorrupted p \<Longrightarrow> in_window (send_base s) (acknum p) \<Longrightarrow>
   in_range (acked s) (c_mod (acknum p) WINDOWSIZE) \<Longrightarrow>
   \<not> acked s ! nat (c_mod (acknum p) WINDOWSIZE) \<Longrightarrow> acknum p = send_base s \<Longrightarrow>
   slide_loop ((acked s)[nat (c_mod (acknum p) WINDOWSIZE) := True]) (send_base s) (windowcount s)
     = None \<Longrightarrow> A_input s p = None"
  by (simp add: A_input_def)

lemma A_input_effect:
  assumes "A_input s p = Some (s', evs)"
  shows "input_effect s p s'"
proof (cases "IsCorrupted p")
  case True
  then have "A_input s p = Some (s, [])" by (simp add: A_input_def)
  with assms True show ?thesis by (auto simp: input_effect_def)
next
  case nc: False
  show ?thesis
  proof (cases "in_window (send_base s) (acknum p)")
    case False
    from A_input_outside [OF nc False] assms False show ?thesis
      by (auto simp: input_effect_def)
  next
    case w: True
    show ?thesis
    proof (cases "in_range (acked s) (c_mod (acknum p) WINDOWSIZE)")
      case False
      from A_input_undefined [OF nc w False] assms show ?thesis by simp
    next
      case r: True
      show ?thesis
      proof (cases "acked s ! nat (c_mod (acknum p) WINDOWSIZE)")
        case True
        from A_input_dup [OF nc w r True] assms True show ?thesis
          by (auto simp: input_effect_def)
      next
        case un: False
        show ?thesis
        proof (cases "acknum p = send_base s")
          case False
          from A_input_new [OF nc w r un False] assms nc w r un False show ?thesis
            by (auto simp: input_effect_def)
        next
          case eq: True
          show ?thesis
          proof (cases "slide_loop ((acked s)[nat (c_mod (acknum p) WINDOWSIZE) := True])
              (send_base s) (windowcount s)")
            case None
            from A_input_slide_undefined [OF nc w r un eq None] assms show ?thesis by simp
          next
            case (Some res)
            obtain ak base cnt where res: "res = (ak, base, cnt)" by (cases res)
            from A_input_base [OF nc w r un eq Some [unfolded res]] assms nc w r un eq Some [unfolded res]
            show ?thesis by (auto simp: input_effect_def)
          qed
        qed
      qed
    qed
  qed
qed

lemma A_input_sr_undefined:
  "\<not> IsCorrupted p \<Longrightarrow> in_window (send_base s) (acknum p) \<Longrightarrow>
   \<not> in_range (acked s) (c_mod (acknum p) WINDOWSIZE) \<Longrightarrow> A_input_sr s p = None"
  by (simp add: A_input_sr_def)

lemma A_input_sr_slide_undefined:
  "\<not> IsCorrupted p \<Longrightarrow> in_window (send_base s) (acknum p) \<Longrightarrow>
   in_range (acked s) (c_mod (acknum p) WINDOWSIZE) \<Longrightarrow>
   \<not> acked s ! nat (c_mod (acknum p) WINDOWSIZE) \<Longrightarrow> acknum p = send_base s \<Longrightarrow>
   slide_loop ((acked s)[nat (c_mod (acknum p) WINDOWSIZE) := True]) (send_base s) (windowcount s)
     = None \<Longrightarrow> A_input_sr s p = None"
  by (simp add: A_input_sr_def)

lemma A_input_sr_effect:
  assumes "A_input_sr s p = Some (s', evs)"
  shows "input_effect s p s'"
proof (cases "IsCorrupted p")
  case True
  then have "A_input_sr s p = Some (s, [])" by (simp add: A_input_sr_def)
  with assms True show ?thesis by (auto simp: input_effect_def)
next
  case nc: False
  show ?thesis
  proof (cases "in_window (send_base s) (acknum p)")
    case False
    from A_input_sr_outside [OF nc False] assms False show ?thesis
      by (auto simp: input_effect_def)
  next
    case w: True
    show ?thesis
    proof (cases "in_range (acked s) (c_mod (acknum p) WINDOWSIZE)")
      case False
      from A_input_sr_undefined [OF nc w False] assms show ?thesis by simp
    next
      case r: True
      show ?thesis
      proof (cases "acked s ! nat (c_mod (acknum p) WINDOWSIZE)")
        case True
        from A_input_sr_dup [OF nc w r True] assms True show ?thesis
          by (auto simp: input_effect_def)
      next
        case un: False
        show ?thesis
        proof (cases "acknum p = send_base s")
          case False
          have "A_input_sr s p = Some (s', evs) \<Longrightarrow>
              acked s' = (acked s)[nat (c_mod (acknum p) WINDOWSIZE) := True] \<and>
              send_base s' = send_base s \<and> windowcount s' = windowcount s \<and>
              length (buffer s') = length (buffer s) \<and> A_nextseqnum s' = A_nextseqnum s"
            using nc w r un False
            by (cases "0 < windowcount s") (auto simp: A_input_sr_def Let_def split: option.splits)
          with assms nc w r un False show ?thesis by (simp add: input_effect_def)
        next
          case eq: True
          show ?thesis
          proof (cases "slide_loop ((acked s)[nat (c_mod (acknum p) WINDOWSIZE) := True])
              (send_base s) (windowcount s)")
            case None
            from A_input_sr_slide_undefined [OF nc w r un eq None] assms show ?thesis by simp
          next
            case (Some res)
            obtain ak base cnt where res: "res = (ak, base, cnt)" by (cases res)
            have "A_input_sr s p = Some (s', evs) \<Longrightarrow>
                acked s' = ak \<and> send_base s' = base \<and> windowcount s' = cnt \<and>
                length (buffer s') = length (buffer s) \<and> A_nextseqnum s' = A_nextseqnum s"
              using nc w r un eq Some [unfolded res]
              by (cases "0 < cnt") (auto simp: A_input_sr_def Let_def split: option.splits)
            with assms nc w r un eq Some [unfolded res] show ?thesis
              by (simp add: input_effect_def)
          qed
        qed
      qed
    qed
  qed
qed

section \<open>Invariants of the sender\<close>

lemma slot_mod [simp]: "slot (x mod SEQSPACE) = slot x"
  by (simp add: slot_def SEQSPACE_def WINDOWSIZE_def mod_mod_cancel)

lemma sender_shape_step:
  assumes "sender_shape s" and "step_effect s c s'"
  shows "sender_shape s'"
proof (cases c)
  case (Output m)
  with assms show ?thesis
    by (auto simp: sender_shape_def output_effect_def same_window_def WINDOWSIZE_def
        split: if_splits)
next
  case Timeout
  with assms show ?thesis by (simp add: sender_shape_def same_window_def)
next
  case (Input p)
  with assms(2) have e: "input_effect s p s'" by simp
  have sh: "length (buffer s) = 6" "length (acked s) = 6" "0 \<le> send_base s"
    "send_base s < SEQSPACE" "windowcount s \<le> WINDOWSIZE"
    using assms(1) by (simp_all add: sender_shape_def)
  let ?m = "(acked s)[nat (c_mod (acknum p) WINDOWSIZE) := True]"
  show ?thesis
  proof (cases "slide_loop ?m (send_base s) (windowcount s) =
      Some (acked s', send_base s', windowcount s')")
    case False
    with e sh show ?thesis
      by (auto simp: sender_shape_def input_effect_def split: if_splits)
  next
    case True
    have "length ?m = 6" using sh by simp
    from slide_loop_spec [OF this sh(3,4), of "windowcount s"] True
    have "length (acked s') = 6" "0 \<le> send_base s'" "send_base s' < SEQSPACE"
      "windowcount s' \<le> windowcount s"
      by (auto simp: SEQSPACE_def)
    with e sh show ?thesis by (simp add: sender_shape_def input_effect_def)
  qed
qed

lemma nonneg_step:
  assumes sh: "sender_shape s" and nn: "0 \<le> windowcount s"
    and ex: "call_expected s c" and ef: "step_effect s c s'"
  shows "0 \<le> windowcount s'"
proof (cases c)
  case (Output m)
  with ef nn show ?thesis
    by (auto simp: output_effect_def same_window_def split: if_splits)
next
  case Timeout
  with ef nn show ?thesis by (simp add: same_window_def)
next
  case (Input p)
  with ef have e: "input_effect s p s'" by simp
  have l: "length (acked s) = 6" and b: "0 \<le> send_base s" "send_base s < SEQSPACE"
    using sh by (simp_all add: sender_shape_def)
  let ?i = "nat (c_mod (acknum p) WINDOWSIZE)"
  show ?thesis
  proof (cases "\<not> IsCorrupted p \<and> in_window (send_base s) (acknum p) \<and>
      \<not> acked s ! ?i \<and> acknum p = send_base s")
    case False
    with e nn show ?thesis by (auto simp: input_effect_def split: if_splits)
  next
    case True
    with ex Input have pos: "0 < windowcount s" by auto
    have i: "?i = slot (send_base s)" using True b by (simp add: slot_def WINDOWSIZE_def)
    from True i have un: "\<not> acked s ! slot (send_base s)" by simp
    from slide_after_mark [OF l b un, of "windowcount s"] obtain n ak' where
      sl: "slide_loop ((acked s)[slot (send_base s) := True]) (send_base s) (windowcount s) =
        Some (ak', (send_base s + int n) mod SEQSPACE, windowcount s - int n)"
      and n: "1 \<le> n"
      and nz: "\<forall>k. 0 < k \<and> k < n \<longrightarrow>
        acked s ! slot (send_base s + int k) \<and> windowcount s - int k \<noteq> 0"
      by blast
    have "0 \<le> windowcount s - int n"
    proof (rule ccontr)
      assume "\<not> 0 \<le> windowcount s - int n"
      with pos have "0 < nat (windowcount s) \<and> nat (windowcount s) < n" by simp
      with nz have "windowcount s - int (nat (windowcount s)) \<noteq> 0" by blast
      with pos show False by simp
    qed
    moreover from e True i sl have "windowcount s' = windowcount s - int n"
      by (auto simp: input_effect_def)
    ultimately show ?thesis by simp
  qed
qed

lemma slot_in_window:
  assumes "0 \<le> b" and "b < SEQSPACE" and "0 \<le> a" and "a < SEQSPACE"
    and "in_window b a" and "a \<noteq> b"
  shows "slot a \<noteq> slot b"
proof
  assume "slot a = slot b"
  moreover have "(a - b) mod 12 < 6"
    using in_window_iff [OF assms(1-4)] assms(5) by (simp add: SEQSPACE_def WINDOWSIZE_def)
  ultimately have "a = b"
    using assms(1-4) by (intro seq_unique) (simp_all add: SEQSPACE_def)
  with assms(6) show False by simp
qed

lemma base_unacked_step:
  assumes inv: "base_unacked s" and ok: "call_ok c" and ef: "step_effect s c s'"
  shows "base_unacked s'"
proof -
  have sh: "sender_shape s" and nx: "A_nextseqnum s = (send_base s + windowcount s) mod SEQSPACE"
    and un: "0 < windowcount s \<longrightarrow> \<not> acked s ! slot (send_base s)"
    using inv by (simp_all add: base_unacked_def)
  have l: "length (acked s) = 6" and b: "0 \<le> send_base s" "send_base s < SEQSPACE"
    using sh by (simp_all add: sender_shape_def)
  have sh': "sender_shape s'" using sh ef by (rule sender_shape_step)
  show ?thesis
  proof (cases c)
    case Timeout
    with ef inv sh' show ?thesis by (simp add: base_unacked_def same_window_def)
  next
    case (Output m)
    with ef have e: "output_effect s s'" by simp
    show ?thesis
    proof (cases "windowcount s < WINDOWSIZE")
      case False
      with e inv sh' show ?thesis
        by (simp add: base_unacked_def output_effect_def same_window_def)
    next
      case True
      have n0: "0 \<le> A_nextseqnum s" using nx by (simp add: SEQSPACE_def)
      from e True have f: "acked s' = (acked s)[slot (A_nextseqnum s) := False]"
        "send_base s' = send_base s" "windowcount s' = windowcount s + 1"
        "A_nextseqnum s' = (A_nextseqnum s + 1) mod SEQSPACE"
        using n0 by (simp_all add: output_effect_def slot_c_mod SEQSPACE_def)
      have "A_nextseqnum s' = (send_base s' + windowcount s') mod SEQSPACE"
        unfolding f nx by (simp add: mod_add_left_eq mod_add_right_eq ac_simps)
      moreover have "0 < windowcount s' \<longrightarrow> \<not> acked s' ! slot (send_base s')"
      proof
        assume "0 < windowcount s'"
        then have c: "0 \<le> windowcount s" using f by simp
        show "\<not> acked s' ! slot (send_base s')"
        proof (cases "windowcount s = 0")
          case True
          with nx b have "A_nextseqnum s = send_base s" by (simp add: SEQSPACE_def)
          with f l show ?thesis by simp
        next
          case False
          with c un have "\<not> acked s ! slot (send_base s)" by simp
          with f l show ?thesis by (simp add: nth_list_update)
        qed
      qed
      ultimately show ?thesis using sh' by (simp add: base_unacked_def)
    qed
  next
    case (Input p)
    with ef have e: "input_effect s p s'" by simp
    from Input ok have p: "IsCorrupted p \<or> (0 \<le> acknum p \<and> acknum p < SEQSPACE)" by simp
    let ?i = "nat (c_mod (acknum p) WINDOWSIZE)"
    show ?thesis
    proof (cases "\<not> IsCorrupted p \<and> in_window (send_base s) (acknum p) \<and> \<not> acked s ! ?i")
      case False
      with e inv sh' show ?thesis by (auto simp: base_unacked_def input_effect_def)
    next
      case True
      with p have a: "0 \<le> acknum p" "acknum p < SEQSPACE" by auto
      have i: "?i = slot (acknum p)" using a by (simp add: slot_def WINDOWSIZE_def)
      from e True have g: "A_nextseqnum s' = A_nextseqnum s"
        and h: "if acknum p = send_base s
          then slide_loop ((acked s)[?i := True]) (send_base s) (windowcount s) =
                 Some (acked s', send_base s', windowcount s')
          else acked s' = (acked s)[?i := True] \<and> send_base s' = send_base s \<and>
               windowcount s' = windowcount s"
        by (auto simp: input_effect_def)
      show ?thesis
      proof (cases "acknum p = send_base s")
        case False
        with h [unfolded i] g have f: "acked s' = (acked s)[slot (acknum p) := True]"
          "send_base s' = send_base s" "windowcount s' = windowcount s"
          "A_nextseqnum s' = A_nextseqnum s"
          by simp_all
        have "slot (acknum p) \<noteq> slot (send_base s)"
          using b a True False by (intro slot_in_window) simp_all
        with f un nx sh' show ?thesis by (simp add: base_unacked_def)
      next
        case eq: True
        from True i eq have u: "\<not> acked s ! slot (send_base s)" by auto
        from slide_after_mark [OF l b u, of "windowcount s"] obtain n ak' where
          sl: "slide_loop ((acked s)[slot (send_base s) := True]) (send_base s) (windowcount s) =
            Some (ak', (send_base s + int n) mod SEQSPACE, windowcount s - int n)"
          and stop: "windowcount s - int n = 0 \<or> \<not> ak' ! slot (send_base s + int n)"
          by blast
        from h [unfolded i] g eq sl have f: "acked s' = ak'"
          "send_base s' = (send_base s + int n) mod SEQSPACE"
          "windowcount s' = windowcount s - int n" "A_nextseqnum s' = A_nextseqnum s"
          by simp_all
        have "A_nextseqnum s' = (send_base s' + windowcount s') mod SEQSPACE"
          unfolding f nx by (simp add: mod_add_left_eq)
        moreover have "0 < windowcount s' \<longrightarrow> \<not> acked s' ! slot (send_base s')"
          unfolding f using stop by auto
        ultimately show ?thesis using sh' by (simp add: base_unacked_def)
      qed
    qed
  qed
qed

lemma A_step_effect: "A_step s c = Some (s', evs) \<Longrightarrow> step_effect s c s'"
  by (cases c) (auto intro: A_output_effect A_input_effect A_timerinterrupt_effect)

lemma A_step_sr_effect: "A_step_sr s c = Some (s', evs) \<Longrightarrow> step_effect s c s'"
  by (cases c) (auto intro: A_output_sr_effect A_input_sr_effect A_timerinterrupt_sr_effect)

lemma A_step_defined:
  assumes inv: "base_unacked s" and ok: "call_ok c"
  shows "\<exists>s' evs. A_step s c = Some (s', evs)"
proof -
  have l: "length (buffer s) = 6" "length (acked s) = 6"
    and b: "0 \<le> send_base s" "send_base s < SEQSPACE"
    and nx: "A_nextseqnum s = (send_base s + windowcount s) mod SEQSPACE"
    using inv by (simp_all add: base_unacked_def sender_shape_def)
  show ?thesis
  proof (cases c)
    case (Output m)
    have "0 \<le> A_nextseqnum s" using nx by (simp add: SEQSPACE_def)
    then have "in_range (buffer s) (c_mod (A_nextseqnum s) WINDOWSIZE)"
      "in_range (acked s) (c_mod (A_nextseqnum s) WINDOWSIZE)"
      using l by (simp_all add: in_range_def WINDOWSIZE_def)
    with Output show ?thesis by (simp add: A_output_def Let_def)
  next
    case Timeout
    have "in_range (buffer s) (c_mod (send_base s) WINDOWSIZE)"
      "in_range (acked s) (c_mod (send_base s) WINDOWSIZE)"
      using l b by (simp_all add: in_range_def WINDOWSIZE_def)
    with Timeout show ?thesis by (simp add: A_timerinterrupt_def Let_def)
  next
    case (Input p)
    with ok have "IsCorrupted p \<or> 0 \<le> acknum p" by auto
    from A_input_twice [OF l(2) b this] Input show ?thesis by auto
  qed
qed

lemma init_shape: "sender_shape A_init" "sender_shape A_init_sr" "base_unacked A_init"
  by (simp_all add: sender_shape_def base_unacked_def A_init_def A_init_sr_def SEQSPACE_def
      WINDOWSIZE_def)

lemma A_run_base_unacked:
  assumes "base_unacked s" and "\<forall>c\<in>set cs. call_ok c"
  shows "\<exists>s'. A_run s cs = Some s' \<and> base_unacked s'"
  using assms
proof (induction cs arbitrary: s)
  case Nil
  then show ?case by simp
next
  case (Cons c cs)
  from Cons.prems have c: "call_ok c" and cs: "\<forall>c\<in>set cs. call_ok c" by simp_all
  from A_step_defined [OF Cons.prems(1) c] obtain s1 evs where
    1: "A_step s c = Some (s1, evs)" by blast
  then have ef: "step_effect s c s1" by (rule A_step_effect)
  have "base_unacked s1" using Cons.prems(1) c ef by (rule base_unacked_step)
  from Cons.IH [OF this cs] obtain s' where "A_run s1 cs = Some s'" "base_unacked s'"
    by blast
  with 1 show ?case by simp
qed

lemma A_run_shape:
  assumes "sender_shape s" and "A_run s cs = Some s'"
  shows "sender_shape s'"
  using assms
proof (induction cs arbitrary: s)
  case Nil
  then show ?case by simp
next
  case (Cons c cs)
  from Cons.prems(2) obtain s1 evs where 1: "A_step s c = Some (s1, evs)"
    and 2: "A_run s1 cs = Some s'"
    by (auto split: option.splits)
  from Cons.prems(1) A_step_effect [OF 1] have "sender_shape s1" by (rule sender_shape_step)
  from Cons.IH [OF this 2] show ?case .
qed

lemma A_run_sr_shape:
  assumes "sender_shape s" and "A_run_sr s cs = Some s'"
  shows "sender_shape s'"
  using assms
proof (induction cs arbitrary: s)
  case Nil
  then show ?case by simp
next
  case (Cons c cs)
  from Cons.prems(2) obtain s1 evs where 1: "A_step_sr s c = Some (s1, evs)"
    and 2: "A_run_sr s1 cs = Some s'"
    by (auto split: option.splits)
  from Cons.prems(1) A_step_sr_effect [OF 1] have "sender_shape s1" by (rule sender_shape_step)
  from Cons.IH [OF this 2] show ?case .
qed

lemma A_run_nonneg:
  assumes "sender_shape s" and "0 \<le> windowcount s" and "acks_expected s cs"
    and "A_run s cs = Some s'"
  shows "0 \<le> windowcount s'"
  using assms
proof (induction cs arbitrary: s)
  case Nil
  then show ?case by simp
next
  case (Cons c cs)
  from Cons.prems(4) obtain s1 evs where 1: "A_step s c = Some (s1, evs)"
    and 2: "A_run s1 cs = Some s'"
    by (auto split: option.splits)
  from Cons.prems(3) 1 have e: "call_expected s c" "acks_expected s1 cs" by simp_all
  from Cons.prems(1) A_step_effect [OF 1] have sh: "sender_shape s1" by (rule sender_shape_step)
  from Cons.prems(1,2) e(1) A_step_effect [OF 1] have "0 \<le> windowcount s1" by (rule nonneg_step)
  from Cons.IH [OF sh this e(2) 2] show ?case .
qed

lemma A_run_sr_nonneg:
  assumes "sender_shape s" and "0 \<le> windowcount s" and "acks_expected_sr s cs"
    and "A_run_sr s cs = Some s'"
  shows "0 \<le> windowcount s'"
  using assms
proof (induction cs arbitrary: s)
  case Nil
  then show ?case by simp
next
  case (Cons c cs)
  from Cons.prems(4) obtain s1 evs where 1: "A_step_sr s c = Some (s1, evs)"
    and 2: "A_run_sr s1 cs = Some s'"
    by (auto split: option.splits)
  from Cons.prems(3) 1 have e: "call_expected s c" "acks_expected_sr s1 cs" by simp_all
  from Cons.prems(1) A_step_sr_effect [OF 1] have sh: "sender_shape s1" by (rule sender_shape_step)
  from Cons.prems(1,2) e(1) A_step_sr_effect [OF 1] have "0 \<le> windowcount s1" by (rule nonneg_step)
  from Cons.IH [OF sh this e(2) 2] show ?case .
qed

section \<open>The received flags\<close>

lemma deliver_loop_length:
  "deliver_loop buf ak base = Some (ak', base', ds) \<Longrightarrow> length ak' = length ak"
proof (induction buf ak base arbitrary: ak' base' ds rule: deliver_loop.induct)
  case (1 buf ak base)
  show ?case
  proof (cases "in_range ak (c_mod base WINDOWSIZE) \<and> ak ! nat (c_mod base WINDOWSIZE)
      \<and> in_range buf (c_mod base WINDOWSIZE)")
    case False
    with "1.prems" show ?thesis
      by (subst (asm) deliver_loop.simps) (auto split: if_splits)
  next
    case True
    with "1.prems" obtain ds1 where
      "deliver_loop buf (ak[nat (c_mod base WINDOWSIZE) := False]) (c_mod (base + 1) SEQSPACE) =
        Some (ak', base', ds1)"
      by (subst (asm) deliver_loop.simps) (auto split: option.splits)
    with "1.IH" [of ak' base' ds1] True show ?thesis by simp
  qed
qed

lemma B_receive_length:
  "B_receive s p = Some (s', evs, ack) \<Longrightarrow> length (rcv_acked s') = length (rcv_acked s)"
  by (auto simp: B_receive_def Let_def deliver_loop_length split: if_splits option.splits)

lemma B_run_length:
  "B_run s ps = Some (s', evs) \<Longrightarrow> length (rcv_acked s') = length (rcv_acked s)"
proof (induction ps arbitrary: s evs)
  case Nil
  then show ?case by simp
next
  case (Cons p ps)
  from Cons.prems obtain s1 e1 e2 where 1: "B_input s p = Some (s1, e1)"
    and 2: "B_run s1 ps = Some (s', e2)"
    by (auto split: option.splits)
  from 1 have "length (rcv_acked s1) = length (rcv_acked s)"
    by (auto simp: B_input_def Let_def dest: B_receive_length split: option.splits)
  with Cons.IH [OF 2] show ?case by simp
qed

lemma B_run_sr_length:
  "B_run_sr s jps = Some (s', evs) \<Longrightarrow> length (rcv_acked s') = length (rcv_acked s)"
proof (induction jps arbitrary: s evs)
  case Nil
  then show ?case by simp
next
  case (Cons jp jps)
  from Cons.prems obtain s1 e1 e2 where 1: "B_input_sr s (fst jp) (snd jp) = Some (s1, e1)"
    and 2: "B_run_sr s1 jps = Some (s', e2)"
    by (auto split: option.splits)
  from 1 have "length (rcv_acked s1) = length (rcv_acked s)"
    by (auto simp: B_input_sr_def dest: B_receive_length split: option.splits)
  with Cons.IH [OF 2] show ?case by simp
qed

section \<open>The example runs\<close>

lemma example_runs:
  "A_run A_init calls_example = Some sender_example"
  "A_run_sr A_init_sr calls_example = Some sender_example_sr"
  "A_run A_init calls_second = Some sender_second"
  "A_run_sr A_init_sr calls_second = Some sender_second_sr"
  "map_option fst (B_run B_init arrivals) = Some receiver_example"
  "map_option fst (B_run_sr B_init_sr (map (Pair (replicate 20 0)) arrivals)) =
     Some receiver_example_sr"
  by code_simp+

lemma example_expected:
  "acks_expected A_init calls_example" "acks_expected_sr A_init_sr calls_example"
  by code_simp+

section \<open>The base slot while packets are outstanding\<close>

text \<open>
  C10, for part_000. Take any list of calls of \<^verbatim>\<open>A_output\<close>, \<^verbatim>\<open>A_input\<close> and
  \<^verbatim>\<open>A_timerinterrupt\<close> in which every packet handed to \<^verbatim>\<open>A_input\<close> is corrupted or
  carries an \<open>acknum\<close> in \<open>[0, SEQSPACE)\<close>. The run from the initial state returns, and in
  the state it reaches: if \<open>windowcount > 0\<close> then the flag \<^verbatim>\<open>acked\<close> of the slot
  \<^verbatim>\<open>send_base % WINDOWSIZE\<close> is false.
\<close>

theorem base_slot_unacked:
  assumes "\<forall>c\<in>set cs. call_ok c"
  shows "\<exists>s. A_run A_init cs = Some s \<and>
           (0 < windowcount s \<longrightarrow> \<not> acked s ! nat (c_mod (send_base s) WINDOWSIZE))"
proof -
  from A_run_base_unacked [OF init_shape(3) assms] obtain s where
    r: "A_run A_init cs = Some s" and i: "base_unacked s"
    by blast
  from i have "0 \<le> send_base s" by (simp add: base_unacked_def sender_shape_def)
  then have "nat (c_mod (send_base s) WINDOWSIZE) = slot (send_base s)" by (rule slot_c_mod)
  with i r show ?thesis by (simp add: base_unacked_def)
qed

theorem base_slot_unacked_witness:
  "list_all call_ok calls_example \<and>
   (\<exists>s. A_run A_init calls_example = Some s \<and> 0 < windowcount s \<and>
      \<not> acked s ! nat (c_mod (send_base s) WINDOWSIZE))"
proof -
  have ok: "\<forall>c\<in>set calls_example. call_ok c"
    by (simp add: calls_example_def SEQSPACE_def)
  from base_slot_unacked [OF ok] obtain s where
    r: "A_run A_init calls_example = Some s"
    and u: "0 < windowcount s \<longrightarrow> \<not> acked s ! nat (c_mod (send_base s) WINDOWSIZE)"
    by blast
  from r have "s = sender_example" by (simp add: example_runs)
  then have "0 < windowcount s" by (simp add: sender_example_def)
  moreover have "list_all call_ok calls_example"
    unfolding list_all_iff by (rule ok)
  ultimately show ?thesis using r u by blast
qed

section \<open>Bounds on the window count\<close>

text \<open>
  C9 as stated fails. After six messages sent and acknowledged one by one the flags of all
  slots are cleared; an uncorrupted acknowledgment for number 6, which lies in the window
  although no such packet is outstanding, is then taken for new, and the loop decrements
  the count from 0 to \<open>-1\<close>: the bound \<open>0 \<le> windowcount \<le> WINDOWSIZE\<close> is false in the
  state reached.
\<close>

theorem window_count_negative:
  "map_option window_bound (A_run A_init calls_spurious) = Some False"
  by code_simp

text \<open>The same happens in sr.c, and the packets of that run fit the data model.\<close>

lemma window_count_negative_sr:
  "map_option windowcount (A_run A_init calls_spurious) = Some (- 1)"
  "map_option windowcount (A_run_sr A_init_sr calls_spurious) = Some (- 1)"
  "map_option window_bound (A_run_sr A_init_sr calls_spurious) = Some False"
  by code_simp+

lemma calls_spurious_ok:
  "\<forall>c\<in>set calls_spurious. call_ok c" "\<not> acks_expected A_init calls_spurious"
  by (simp add: calls_spurious_def SEQSPACE_def) code_simp

text \<open>
  C9, amended. In every state that the sender of either file reaches from its initial state
  by calls of its three handlers, \<open>windowcount \<le> WINDOWSIZE\<close>; and \<open>0 \<le> windowcount\<close>
  holds whenever the calls were expected, that is, whenever no uncorrupted acknowledgment
  for the base arrived while no packet was outstanding. In every state that the receiver
  of either file reaches, at most \<open>WINDOWSIZE\<close> received flags are set.
\<close>

theorem window_count_bounds:
  assumes "A_run A_init cs = Some s" and "A_run_sr A_init_sr ds = Some t"
    and "map_option fst (B_run B_init ps) = Some r"
    and "map_option fst (B_run_sr B_init_sr jps) = Some r'"
  shows "windowcount s \<le> WINDOWSIZE \<and> (acks_expected A_init cs \<longrightarrow> 0 \<le> windowcount s) \<and>
         windowcount t \<le> WINDOWSIZE \<and> (acks_expected_sr A_init_sr ds \<longrightarrow> 0 \<le> windowcount t) \<and>
         int (length (filter id (rcv_acked r))) \<le> WINDOWSIZE \<and>
         int (length (filter id (rcv_acked r'))) \<le> WINDOWSIZE"
proof -
  have z: "0 \<le> windowcount A_init" "0 \<le> windowcount A_init_sr"
    by (simp_all add: A_init_def A_init_sr_def)
  have "sender_shape s" using init_shape(1) assms(1) by (rule A_run_shape)
  then have 1: "windowcount s \<le> WINDOWSIZE" by (simp add: sender_shape_def)
  have "sender_shape t" using init_shape(2) assms(2) by (rule A_run_sr_shape)
  then have 2: "windowcount t \<le> WINDOWSIZE" by (simp add: sender_shape_def)
  have 3: "acks_expected A_init cs \<longrightarrow> 0 \<le> windowcount s"
    using A_run_nonneg [OF init_shape(1) z(1) _ assms(1)] by blast
  have 4: "acks_expected_sr A_init_sr ds \<longrightarrow> 0 \<le> windowcount t"
    using A_run_sr_nonneg [OF init_shape(2) z(2) _ assms(2)] by blast
  from assms(3) obtain evs where "B_run B_init ps = Some (r, evs)" by auto
  then have "length (rcv_acked r) = length (rcv_acked B_init)" by (rule B_run_length)
  then have "length (rcv_acked r) = 6" by (simp add: B_init_def)
  moreover have "length (filter id (rcv_acked r)) \<le> length (rcv_acked r)" by (rule length_filter_le)
  ultimately have 5: "int (length (filter id (rcv_acked r))) \<le> WINDOWSIZE"
    by (simp add: WINDOWSIZE_def)
  from assms(4) obtain evs' where "B_run_sr B_init_sr jps = Some (r', evs')" by auto
  then have "length (rcv_acked r') = length (rcv_acked B_init_sr)" by (rule B_run_sr_length)
  then have "length (rcv_acked r') = 6" by (simp add: B_init_sr_def)
  moreover have "length (filter id (rcv_acked r')) \<le> length (rcv_acked r')"
    by (rule length_filter_le)
  ultimately have 6: "int (length (filter id (rcv_acked r'))) \<le> WINDOWSIZE"
    by (simp add: WINDOWSIZE_def)
  from 1 2 3 4 5 6 show ?thesis by blast
qed

theorem window_count_bounds_witness:
  "A_run A_init calls_example = Some sender_example \<and>
   A_run_sr A_init_sr calls_example = Some sender_example_sr \<and>
   map_option fst (B_run B_init arrivals) = Some receiver_example \<and>
   map_option fst (B_run_sr B_init_sr (map (Pair (replicate 20 0)) arrivals)) =
     Some receiver_example_sr \<and>
   acks_expected A_init calls_example \<and> acks_expected_sr A_init_sr calls_example \<and>
   windowcount sender_example \<le> WINDOWSIZE \<and> 0 \<le> windowcount sender_example \<and>
   windowcount sender_example_sr \<le> WINDOWSIZE \<and> 0 \<le> windowcount sender_example_sr \<and>
   int (length (filter id (rcv_acked receiver_example))) \<le> WINDOWSIZE \<and>
   int (length (filter id (rcv_acked receiver_example_sr))) \<le> WINDOWSIZE"
  using window_count_bounds [OF example_runs(1,2,5,6)] example_runs(1,2,5,6) example_expected
  by blast

section \<open>Timeouts\<close>

text \<open>
  In part_000 the handler looks at the slot of the base only. In a state that satisfies the
  invariant of C10 with packets outstanding, that slot holds the oldest unacknowledged
  packet, and the handler retransmits it, once, and restarts the timer.
\<close>

lemma oldest_unacked_base:
  assumes "0 < windowcount s" and "\<not> acked s ! slot (send_base s)"
  shows "oldest_unacked s = Some 0"
proof -
  from assms(1) have "[0..<nat (windowcount s)] = 0 # [1..<nat (windowcount s)]"
    by (simp add: upt_conv_Cons)
  with assms(2) show ?thesis by (simp add: oldest_unacked_def)
qed

lemma A_timerinterrupt_base:
  assumes "base_unacked s" and "0 < windowcount s"
  shows "oldest_unacked s = Some 0 \<and>
         A_timerinterrupt s = Some (s\<lparr>packets_resent := packets_resent s + 1, timer_running := True\<rparr>,
           [ToLayer3 (buffer s ! slot (send_base s)), StartTimer])"
proof -
  have l: "length (buffer s) = 6" "length (acked s) = 6" and b: "0 \<le> send_base s"
    and u: "\<not> acked s ! slot (send_base s)"
    using assms by (simp_all add: base_unacked_def sender_shape_def)
  have i: "nat (c_mod (send_base s) WINDOWSIZE) = slot (send_base s)" using b by (rule slot_c_mod)
  have r: "in_range (buffer s) (c_mod (send_base s) WINDOWSIZE)"
    "in_range (acked s) (c_mod (send_base s) WINDOWSIZE)"
    using l b by (simp_all add: in_range_def WINDOWSIZE_def)
  from u i r have "A_timerinterrupt s =
      Some (s\<lparr>packets_resent := packets_resent s + 1, timer_running := True\<rparr>,
        [ToLayer3 (buffer s ! slot (send_base s)), StartTimer])"
    by (simp add: A_timerinterrupt_def Let_def)
  with oldest_unacked_base [OF assms(2) u] show ?thesis by simp
qed

text \<open>
  C4. The claim is that \<^verbatim>\<open>A_timerinterrupt\<close> retransmits the oldest unacknowledged
  outstanding packet. For sr.c it fails in the state reached by sending three messages,
  receiving their acknowledgments and sending three more: packets 3, 4 and 5 are
  outstanding, packet 3 is the oldest one without acknowledgment, and the handler returns
  the state unchanged with an empty trace. The loop stores the index 3 in its loop variable
  and then compares \<open>(send_base + 3) % SEQSPACE = 6\<close> with \<^verbatim>\<open>A_nextseqnum = 6\<close>.
\<close>

theorem A_timerinterrupt_sr_sends_nothing:
  "A_run_sr A_init_sr calls_second = Some sender_second_sr \<and>
   oldest_unacked sender_second_sr = Some 0 \<and>
   A_timerinterrupt_sr sender_second_sr = Some (sender_second_sr, [])"
  by (intro conjI) code_simp+

text \<open>
  In the same state part_000 retransmits packet 3. With nothing outstanding and the flag of
  the base slot cleared by an earlier slide, part_000 sends the packet left in that slot.
\<close>

lemma A_timerinterrupt_second:
  "A_timerinterrupt sender_second =
     Some (sender_second\<lparr>packets_resent := 1\<rparr>, [ToLayer3 (data_pkt 3), StartTimer])"
  by code_simp

lemma A_timerinterrupt_idle:
  "map_option (\<lambda>s. (windowcount s, oldest_unacked s, map_option snd (A_timerinterrupt s)))
     (A_run A_init (butlast calls_spurious)) =
   Some (0, None, Some [ToLayer3 (data_pkt 0), StartTimer])"
  by code_simp

end
